theory Spec2Isabelle
  imports Main "HOL-Library.Char_ord" "HOL-Library.List_Lexorder" "HOL-Library.Sublist"
begin

text \<open>
  A model of \<open>homeassistant-entity-renamer.py\<close>: the alignment of the preview table, the
  listing of the entities, the planning of the renames from a pattern or from an input
  file, the export, the confirmation prompt and the update requests on the hub's control
  channel. Pure functions are HOL functions. A function with effects returns the events
  it causes, in order, together with its value or the exception that ends it; what the
  network, the files, the operator and the libraries answer is a parameter, the
  \<open>world\<close>. The properties proved follow the definitions.
\<close>

section \<open>Exceptions\<close>

text \<open>
  The script raises nothing itself; every exception comes out of a library call and, being
  caught nowhere, ends the run. Each one is a value of the type \<open>error\<close>.
\<close>

datatype error =
    IndexError
  | KeyError
  | TypeError
  | ReError
  | JSONDecodeError
  | RequestException
  | OSError
  | CsvError
  | EOFError
  | WebSocketException

section \<open>Column alignment: \<open>align_strings\<close>\<close>

text \<open>
  A table is a list of rows, a row a sequence of strings (the script passes 3-tuples).
  A character of a \<open>string\<close> stands for one code point of a Python \<open>str\<close>.
\<close>

type_synonym table = "string list list"

definition alignment_char :: char where
  "alignment_char = CHR ''.''"

text \<open>\<open>s.split(alignment_char)[0]\<close>: the part of \<open>s\<close> before its first period.\<close>

definition split_head :: "string \<Rightarrow> string" where
  "split_head s = takeWhile (\<lambda>c. c \<noteq> alignment_char) s"

text \<open>\<open>s.split(alignment_char, maxsplit=1)[1]\<close>, for an \<open>s\<close> that holds a period: what
  follows the first period.\<close>

definition split_rest :: "string \<Rightarrow> string" where
  "split_rest s = tl (dropWhile (\<lambda>c. c \<noteq> alignment_char) s)"

text \<open>The format specification \<open>:>{n}\<close> of a string: right-aligned in a field of width
  \<open>n\<close>, filled with spaces on the left; a string longer than \<open>n\<close> is kept whole.\<close>

definition rjust :: "nat \<Rightarrow> string \<Rightarrow> string" where
  "rjust n s = replicate (n - length s) CHR '' '' @ s"

text \<open>The inner function \<open>align_string\<close>, with the \<open>max_length\<close> it closes over.\<close>

definition align_string :: "nat \<Rightarrow> string \<Rightarrow> string" where
  "align_string max_length s =
     (if alignment_char \<in> set s
      then rjust max_length (split_head s) @ ''.'' @ split_rest s
      else s)"

text \<open>Python's \<open>max\<close> over a list of lengths (the script calls it on non-empty lists only).\<close>

definition max_list :: "nat list \<Rightarrow> nat" where
  "max_list ns = foldr max ns 0"

text \<open>\<open>[row[column] for row in table]\<close>; a row that is too short raises \<open>IndexError\<close>.\<close>

definition column_data :: "nat \<Rightarrow> table \<Rightarrow> error + string list" where
  "column_data column t =
     (if list_all (\<lambda>row. column < length row) t
      then Inr (map (\<lambda>row. row ! column) t)
      else Inl IndexError)"

text \<open>One turn of the loop over the columns.\<close>

definition align_column :: "nat \<Rightarrow> table \<Rightarrow> error + table" where
  "align_column column t =
     (case column_data column t of
        Inl e \<Rightarrow> Inl e
      | Inr cd \<Rightarrow>
          (let strings_to_align = filter (\<lambda>s. alignment_char \<in> set s) cd in
           if length strings_to_align = 0 then Inr t
           else
             (let max_length = max_list (map (\<lambda>s. length (split_head s)) strings_to_align) in
              Inr (map (\<lambda>row. map (\<lambda>(i, v). if i = column then align_string max_length v else v)
                                  (enumerate 0 row)) t))))"

fun align_columns :: "nat list \<Rightarrow> table \<Rightarrow> error + table" where
  "align_columns [] t = Inr t"
| "align_columns (column # columns) t =
     (case align_column column t of
        Inl e \<Rightarrow> Inl e
      | Inr t' \<Rightarrow> align_columns columns t')"

definition align_strings :: "table \<Rightarrow> error + table" where
  "align_strings t =
     (if length t = 0 then Inr t
      else align_columns [0..<length (t ! 0)] t)"

text \<open>The width the script computes for a column, and the table with its first \<open>k\<close>
  columns aligned: the loop's invariant.\<close>

definition column_width :: "table \<Rightarrow> nat \<Rightarrow> nat" where
  "column_width t c =
     max_list (map (\<lambda>s. length (split_head s))
                (filter (\<lambda>s. alignment_char \<in> set s) (map (\<lambda>row. row ! c) t)))"

definition pad_cell :: "table \<Rightarrow> nat \<Rightarrow> string \<Rightarrow> string" where
  "pad_cell t c v =
     (if alignment_char \<in> set v
      then replicate (column_width t c - length (split_head v)) CHR '' '' @ v
      else v)"

definition aligned_upto :: "nat \<Rightarrow> table \<Rightarrow> table" where
  "aligned_upto k t =
     map (\<lambda>row. map (\<lambda>(i, v). if i < k then pad_cell t i v else v) (enumerate 0 row)) t"


section \<open>The world the script talks to\<close>

text \<open>
  The hub's answer to \<open>GET /api/states\<close>: the status code and the body. An entity of
  the decoded body has an \<open>entity_id\<close> and, optionally, the attribute
  \<open>friendly_name\<close>.
\<close>

record response =
  status_code :: nat
  text_of :: string

record entity =
  entity_id :: string
  friendly_name :: "string option"

text \<open>
  A response frame of the control channel, decoded: whether \<open>success\<close> is set, and the
  \<open>message\<close> of its \<open>error\<close> object when there is one.
\<close>

record update_result =
  success :: bool
  error_message :: "string option"

text \<open>
  Everything outside the script is a field of \<open>world\<close>: \<open>requests.get\<close>,
  \<open>json.loads\<close> (on the listing's body and on a response frame), the regular
  expression engine on patterns with metacharacters, the files that exist and the paths
  that can be opened for writing, the line \<open>input\<close> reads (\<open>None\<close> at end of file),
  and the control channel: whether the connection opens and the frames the hub sends, in
  order. A library call that raises gives \<open>Inl\<close>.
\<close>

record world =
  http_get :: "error + response"
  json_loads_states :: "string \<Rightarrow> error + entity list"
  engine_search :: "string \<Rightarrow> string \<Rightarrow> error + bool"
  engine_sub :: "string \<Rightarrow> string \<Rightarrow> string \<Rightarrow> error + string"
  files :: "string \<rightharpoonup> string"
  can_write :: "string \<Rightarrow> bool"
  stdin_line :: "string option"
  ws_connects :: bool
  ws_frames :: "string list"
  json_loads_result :: "string \<Rightarrow> error + update_result"

text \<open>
  A frame the script sends: the authentication frame (it carries the access token of the
  configuration), or an update request
  \<open>{"id": index, "type": "config/entity_registry/update", "entity_id": ...}\<close> with the keys
  \<open>new_entity_id\<close> and \<open>name\<close> when they were set.
\<close>

datatype frame =
    Auth
  | Update nat string "string option" "string option"

text \<open>What \<open>print\<close> writes: a line of text, the table \<open>tabulate\<close> renders (given by the
  rows passed to it), the status line of a failed listing, a frame just sent, or the
  usage help.\<close>

datatype printed =
    Text string
  | Table table
  | HttpError nat string
  | Sent frame
  | Help

datatype event =
    HttpGet
  | Print printed
  | FileRead string
  | FileWrite string string
  | Input string
  | WsConnect
  | WsRecv string
  | WsSend frame
  | WsClose

text \<open>
  A piece of the script run: the events it caused, in order, and its value or the
  exception that ended it.
\<close>

type_synonym 'a run = "event list \<times> (error + 'a)"

definition ret :: "'a \<Rightarrow> 'a run" where
  "ret a = ([], Inr a)"

definition raise :: "error \<Rightarrow> 'a run" where
  "raise e = ([], Inl e)"

definition lift :: "error + 'a \<Rightarrow> 'a run" where
  "lift r = ([], r)"

definition emit :: "event \<Rightarrow> unit run" where
  "emit ev = ([ev], Inr ())"

definition bind :: "'a run \<Rightarrow> ('a \<Rightarrow> 'b run) \<Rightarrow> 'b run" where
  "bind m f =
     (case m of
        (es, Inl e) \<Rightarrow> (es, Inl e)
      | (es, Inr a) \<Rightarrow> (case f a of (es', r) \<Rightarrow> (es @ es', r)))"

text \<open>Python's truth value of an optional string: \<open>None\<close> and \<open>""\<close> are false.\<close>

definition truthy :: "string option \<Rightarrow> bool" where
  "truthy x = (case x of None \<Rightarrow> False | Some s \<Rightarrow> s \<noteq> [])"

section \<open>Regular expressions\<close>

text \<open>
  \<open>re.search\<close> and \<open>re.sub\<close>. A pattern without any of the special characters
  \<open>. ^ $ * + ? { } [ ] \ | ( )\<close> matches itself and nothing else, so \<open>re.search\<close> looks
  for the pattern as a substring and \<open>re.sub\<close>, given a replacement without a backslash,
  replaces the occurrences from left to right without overlap; these are computed. Every
  other pattern goes to the engine of the \<open>world\<close>.
\<close>

definition special_characters :: "char list" where
  "special_characters =
     [CHR ''.'', CHR ''^'', CHR ''$'', CHR ''*'', CHR ''+'', CHR ''?'', CHR ''{'', CHR ''}'',
      CHR ''['', CHR '']'', CHR 0x5C, CHR ''|'', CHR ''('', CHR '')'']"

definition plain :: "string \<Rightarrow> bool" where
  "plain pattern = list_all (\<lambda>c. c \<notin> set special_characters) pattern"

fun contains :: "string \<Rightarrow> string \<Rightarrow> bool" where
  "contains pattern [] = (pattern = [])"
| "contains pattern (c # s) = (prefix pattern (c # s) \<or> contains pattern s)"

function replace_all :: "string \<Rightarrow> string \<Rightarrow> string \<Rightarrow> string" where
  "replace_all pattern repl s =
     (if pattern = [] \<or> s = [] then s
      else if prefix pattern s then repl @ replace_all pattern repl (drop (length pattern) s)
      else hd s # replace_all pattern repl (tl s))"
  by pat_completeness auto
termination
  by (relation "measure (\<lambda>(pattern, repl, s). length s)") auto

definition re_search :: "world \<Rightarrow> string \<Rightarrow> string \<Rightarrow> error + bool" where
  "re_search w pattern s =
     (if plain pattern then Inr (contains pattern s) else engine_search w pattern s)"

definition re_sub :: "world \<Rightarrow> string \<Rightarrow> string \<Rightarrow> string \<Rightarrow> error + string" where
  "re_sub w pattern repl s =
     (if plain pattern \<and> pattern \<noteq> [] \<and> CHR 0x5C \<notin> set repl
      then Inr (replace_all pattern repl s)
      else engine_sub w pattern repl s)"

section \<open>Lister: \<open>list_entities\<close>\<close>

text \<open>The comprehension that keeps the pairs whose identifier the pattern is found in; the
  first \<open>re.search\<close> that raises ends it.\<close>

fun filter_entities ::
  "world \<Rightarrow> string \<Rightarrow> (string \<times> string) list \<Rightarrow> error + (string \<times> string) list" where
  "filter_entities w regex [] = Inr []"
| "filter_entities w regex ((name, ident) # rest) =
     (case re_search w regex ident of
        Inl e \<Rightarrow> Inl e
      | Inr found \<Rightarrow>
          (case filter_entities w regex rest of
             Inl e \<Rightarrow> Inl e
           | Inr kept \<Rightarrow> Inr (if found then (name, ident) # kept else kept)))"

text \<open>\<open>sorted(entity_data, key=lambda x: x[0])\<close>: Python's sort is stable and compares
  strings code point by code point, and a stable sort has one result, the one of
  \<open>sort_key\<close>.\<close>

definition sorted_by_name :: "(string \<times> string) list \<Rightarrow> (string \<times> string) list" where
  "sorted_by_name entity_data = sort_key fst entity_data"

definition list_entities :: "world \<Rightarrow> string option \<Rightarrow> (string \<times> string) list run" where
  "list_entities w regex =
     bind (emit HttpGet) (\<lambda>_.
     bind (lift (http_get w)) (\<lambda>response.
       if status_code response = 200 then
         bind (lift (json_loads_states w (text_of response))) (\<lambda>data.
         bind (let entity_data =
                     map (\<lambda>entity. (case friendly_name entity of None \<Rightarrow> [] | Some name \<Rightarrow> name,
                                     entity_id entity)) data
               in (case regex of
                     None \<Rightarrow> ret entity_data
                   | Some r \<Rightarrow>
                       if r \<noteq> [] then lift (filter_entities w r entity_data)
                       else ret entity_data)) (\<lambda>entity_data.
         ret (sorted_by_name entity_data)))
       else
         bind (emit (Print (HttpError (status_code response) (text_of response)))) (\<lambda>_.
         ret [])))"

section \<open>Table files: the \<open>csv\<close> module and text files\<close>

text \<open>
  The script writes with \<open>csv.writer\<close> and reads with \<open>csv.DictReader\<close>, both in the
  default dialect: delimiter comma, quote character \<open>"\<close>, doubled inside a quoted
  field, minimal quoting, line terminator CR LF, not strict, no escape character. The
  reader's limit on the size of a field is left out, and so is the error that versions
  before 3.11 raise on a NUL character.
\<close>

definition CR :: char where
  "CR = CHR 0x0D"

definition LF :: char where
  "LF = CHR 0x0A"

definition DQ :: char where
  "DQ = CHR 0x22"

definition delimiter :: char where
  "delimiter = CHR '',''"

subsection \<open>The writer\<close>

text \<open>A field is quoted when it holds the delimiter, the quote character or a character of
  the line terminator; a quote character in it is doubled.\<close>

definition needs_quotes :: "string \<Rightarrow> bool" where
  "needs_quotes field = list_ex (\<lambda>c. c = delimiter \<or> c = DQ \<or> c = CR \<or> c = LF) field"

definition quote_field :: "string \<Rightarrow> string" where
  "quote_field field = DQ # concat (map (\<lambda>c. if c = DQ then [DQ, DQ] else [c]) field) @ [DQ]"

definition write_field :: "string \<Rightarrow> string" where
  "write_field field = (if needs_quotes field then quote_field field else field)"

fun join_fields :: "string list \<Rightarrow> string" where
  "join_fields [] = []"
| "join_fields [f] = f"
| "join_fields (f # g # fs) = f @ delimiter # join_fields (g # fs)"

text \<open>\<open>writerow\<close>: a row that is one empty field is written as two quote characters.\<close>

definition writerow :: "string list \<Rightarrow> string" where
  "writerow row =
     (if row = [[]] then [DQ, DQ] else join_fields (map write_field row)) @ [CR, LF]"

definition writerows :: "table \<Rightarrow> string" where
  "writerows rows = concat (map writerow rows)"

subsection \<open>Reading a text file\<close>

text \<open>\<open>open(name, mode="r")\<close> has universal newlines: CR LF and a lone CR are read as LF.
  Iterating over the file gives its lines, each with its LF.\<close>

fun universal_newlines :: "string \<Rightarrow> string" where
  "universal_newlines [] = []"
| "universal_newlines [c] = [if c = CR then LF else c]"
| "universal_newlines (c # d # s) =
     (if c = CR \<and> d = LF then LF # universal_newlines s
      else if c = CR then LF # universal_newlines (d # s)
      else c # universal_newlines (d # s))"

fun lines_from :: "string \<Rightarrow> string \<Rightarrow> string list" where
  "lines_from line [] = (if line = [] then [] else [line])"
| "lines_from line (c # s) =
     (if c = LF then (line @ [LF]) # lines_from [] s else lines_from (line @ [c]) s)"

definition file_lines :: "string \<Rightarrow> string list" where
  "file_lines content = lines_from [] (universal_newlines content)"

subsection \<open>The reader\<close>

text \<open>The reader is the state machine of the module: it is fed the characters of a line,
  then the end of the line (\<open>None\<close>), and holds the fields of the record it is in and the
  characters of the field it is in.\<close>

datatype parser_state =
    START_RECORD
  | START_FIELD
  | IN_FIELD
  | IN_QUOTED_FIELD
  | QUOTE_IN_QUOTED_FIELD
  | EAT_CRNL

record reader =
  state :: parser_state
  saved_fields :: "string list"
  field_chars :: string

definition parse_reset :: reader where
  "parse_reset = \<lparr>state = START_RECORD, saved_fields = [], field_chars = []\<rparr>"

definition parse_save_field :: "reader \<Rightarrow> reader" where
  "parse_save_field rd = rd\<lparr>saved_fields := saved_fields rd @ [field_chars rd], field_chars := []\<rparr>"

definition parse_add_char :: "char \<Rightarrow> reader \<Rightarrow> reader" where
  "parse_add_char c rd = rd\<lparr>field_chars := field_chars rd @ [c]\<rparr>"

definition is_newline :: "char option \<Rightarrow> bool" where
  "is_newline c = (c = Some LF \<or> c = Some CR)"

definition start_field :: "reader \<Rightarrow> char option \<Rightarrow> reader" where
  "start_field rd c =
     (if is_newline c \<or> c = None then
        (parse_save_field rd)\<lparr>state := (if c = None then START_RECORD else EAT_CRNL)\<rparr>
      else if c = Some DQ then rd\<lparr>state := IN_QUOTED_FIELD\<rparr>
      else if c = Some delimiter then (parse_save_field rd)\<lparr>state := START_FIELD\<rparr>
      else (parse_add_char (the c) rd)\<lparr>state := IN_FIELD\<rparr>)"

definition parse_process_char :: "reader \<Rightarrow> char option \<Rightarrow> error + reader" where
  "parse_process_char rd c =
     (case state rd of
        START_RECORD \<Rightarrow>
          if c = None then Inr rd
          else if is_newline c then Inr (rd\<lparr>state := EAT_CRNL\<rparr>)
          else Inr (start_field rd c)
      | START_FIELD \<Rightarrow> Inr (start_field rd c)
      | IN_FIELD \<Rightarrow>
          if is_newline c \<or> c = None then
            Inr ((parse_save_field rd)\<lparr>state := (if c = None then START_RECORD else EAT_CRNL)\<rparr>)
          else if c = Some delimiter then Inr ((parse_save_field rd)\<lparr>state := START_FIELD\<rparr>)
          else Inr (parse_add_char (the c) rd)
      | IN_QUOTED_FIELD \<Rightarrow>
          if c = None then Inr rd
          else if c = Some DQ then Inr (rd\<lparr>state := QUOTE_IN_QUOTED_FIELD\<rparr>)
          else Inr (parse_add_char (the c) rd)
      | QUOTE_IN_QUOTED_FIELD \<Rightarrow>
          if c = Some DQ then Inr ((parse_add_char DQ rd)\<lparr>state := IN_QUOTED_FIELD\<rparr>)
          else if c = Some delimiter then Inr ((parse_save_field rd)\<lparr>state := START_FIELD\<rparr>)
          else if is_newline c \<or> c = None then
            Inr ((parse_save_field rd)\<lparr>state := (if c = None then START_RECORD else EAT_CRNL)\<rparr>)
          else Inr ((parse_add_char (the c) rd)\<lparr>state := IN_FIELD\<rparr>)
      | EAT_CRNL \<Rightarrow>
          if is_newline c then Inr rd
          else if c = None then Inr (rd\<lparr>state := START_RECORD\<rparr>)
          else Inl CsvError)"

text \<open>One line: its characters, then the end of the line.\<close>

fun process_line :: "reader \<Rightarrow> string \<Rightarrow> error + reader" where
  "process_line rd [] = parse_process_char rd None"
| "process_line rd (c # s) =
     (case parse_process_char rd (Some c) of
        Inl e \<Rightarrow> Inl e
      | Inr rd' \<Rightarrow> process_line rd' s)"

text \<open>
  The records of the lines, and the error that ended the reading, if any. A record is
  over when a line ends in the state \<open>START_RECORD\<close>; when the lines run out inside a
  quoted field, what was read is the last record.
\<close>

fun read_records :: "reader \<Rightarrow> string list \<Rightarrow> string list list \<times> error option" where
  "read_records rd [] =
     (if field_chars rd \<noteq> [] \<or> state rd = IN_QUOTED_FIELD
      then ([saved_fields (parse_save_field rd)], None)
      else ([], None))"
| "read_records rd (l # ls) =
     (case process_line rd l of
        Inl e \<Rightarrow> ([], Some e)
      | Inr rd' \<Rightarrow>
          if state rd' = START_RECORD
          then (case read_records parse_reset ls of (rows, e) \<Rightarrow> (saved_fields rd' # rows, e))
          else read_records rd' ls)"

definition csv_reader :: "string list \<Rightarrow> string list list \<times> error option" where
  "csv_reader ls = read_records parse_reset ls"

subsection \<open>\<open>DictReader\<close>\<close>

text \<open>
  The first record gives the field names; of the others, the empty ones are skipped and
  each becomes a dictionary from the field names to its values, with \<open>None\<close> (the
  \<open>restval\<close>) for the names a short record has no value for. A value is \<open>Some s\<close> for the string
  \<open>s\<close> and \<open>None\<close> for Python's \<open>None\<close>.
\<close>

type_synonym cell = "string option"

definition row_dict :: "string list \<Rightarrow> string list \<Rightarrow> (string \<rightharpoonup> cell)" where
  "row_dict fieldnames row =
     fold (\<lambda>key d. d(key \<mapsto> None)) (drop (length row) fieldnames)
       (fold (\<lambda>(key, v) d. d(key \<mapsto> Some v)) (zip fieldnames row) Map.empty)"

definition dict_reader :: "string list \<Rightarrow> (string \<rightharpoonup> cell) list \<times> error option" where
  "dict_reader ls =
     (case csv_reader ls of
        ([], e) \<Rightarrow> ([], e)
      | (fieldnames # rows, e) \<Rightarrow>
          (map (row_dict fieldnames) (filter (\<lambda>row. row \<noteq> []) rows), e))"

section \<open>Planner and presenter: \<open>process_entities\<close>\<close>

text \<open>A row of \<open>rename_data\<close>: friendly name, current entity id, new entity id.\<close>

type_synonym rename_row = "string \<times> string \<times> string"

definition header :: "string list" where
  "header = [''Friendly Name'', ''Current Entity ID'', ''New Entity ID'']"

definition row_of :: "rename_row \<Rightarrow> string list" where
  "row_of r = (case r of (name, ident, new_ident) \<Rightarrow> [name, ident, new_ident])"

subsection \<open>Rows of an input file\<close>

text \<open>The body of the loop over the rows of the \<open>DictReader\<close>:
  \<open>row["Current Entity ID"]\<close> raises \<open>KeyError\<close> without the column, the two \<open>row.get\<close> give
  the empty string without theirs.\<close>

definition rename_row_of :: "(string \<rightharpoonup> cell) \<Rightarrow> error + (cell \<times> cell \<times> cell)" where
  "rename_row_of row =
     (case row ''Current Entity ID'' of
        None \<Rightarrow> Inl KeyError
      | Some ident \<Rightarrow>
          Inr (case row ''Friendly Name'' of None \<Rightarrow> Some [] | Some v \<Rightarrow> v,
               ident,
               case row ''New Entity ID'' of None \<Rightarrow> Some [] | Some v \<Rightarrow> v))"

fun rename_rows_of :: "(string \<rightharpoonup> cell) list \<Rightarrow> error + (cell \<times> cell \<times> cell) list" where
  "rename_rows_of [] = Inr []"
| "rename_rows_of (row # rows) =
     (case rename_row_of row of
        Inl e \<Rightarrow> Inl e
      | Inr r \<Rightarrow>
          (case rename_rows_of rows of
             Inl e \<Rightarrow> Inl e
           | Inr rs \<Rightarrow> Inr (r # rs)))"

text \<open>The \<open>with open(input_filename, mode="r")\<close> block. \<open>FileRead\<close> is the call of
  \<open>open\<close>, which raises when there is no such file; an error of the reader comes after
  the rows read before it.\<close>

definition read_rename_data :: "world \<Rightarrow> string \<Rightarrow> (cell \<times> cell \<times> cell) list run" where
  "read_rename_data w input_filename =
     bind (emit (FileRead input_filename)) (\<lambda>_.
       case files w input_filename of
         None \<Rightarrow> raise OSError
       | Some content \<Rightarrow>
           (case dict_reader (file_lines content) of
              (rows, e) \<Rightarrow>
                bind (lift (rename_rows_of rows)) (\<lambda>rename_data.
                  case e of
                    Some err \<Rightarrow> raise err
                  | None \<Rightarrow> ret rename_data)))"

text \<open>A row read from a short record holds \<open>None\<close>, and \<open>align_strings\<close> raises
  \<open>TypeError\<close> on the test \<open>alignment_char in s\<close> of such a cell: it makes the test for
  every cell of the three columns before it returns.\<close>

fun strings_of :: "(cell \<times> cell \<times> cell) list \<Rightarrow> error + rename_row list" where
  "strings_of [] = Inr []"
| "strings_of ((Some name, Some ident, Some new_ident) # rest) =
     (case strings_of rest of
        Inl e \<Rightarrow> Inl e
      | Inr rows \<Rightarrow> Inr ((name, ident, new_ident) # rows))"
| "strings_of (_ # rest) = Inl TypeError"

subsection \<open>Rows computed from the listed entities\<close>

text \<open>The loop \<open>for friendly_name, entity_id in entity_data\<close> with its \<open>re.sub\<close>, which
  raises \<open>TypeError\<close> on a pattern that is \<open>None\<close>.\<close>

fun substituted ::
  "world \<Rightarrow> string option \<Rightarrow> string \<Rightarrow> (string \<times> string) list \<Rightarrow> error + rename_row list" where
  "substituted w search replace [] = Inr []"
| "substituted w search replace ((name, ident) # rest) =
     (case (case search of None \<Rightarrow> Inl TypeError | Some pattern \<Rightarrow> re_sub w pattern replace ident) of
        Inl e \<Rightarrow> Inl e
      | Inr new_ident \<Rightarrow>
          (case substituted w search replace rest of
             Inl e \<Rightarrow> Inl e
           | Inr rows \<Rightarrow> Inr ((name, ident, new_ident) # rows)))"

text \<open>The \<open>else\<close> branch of \<open>process_entities\<close>: \<open>if replace_regex:\<close> and its two arms.\<close>

definition rename_data_of ::
  "world \<Rightarrow> string option \<Rightarrow> string option \<Rightarrow> (string \<times> string) list \<Rightarrow> error + rename_row list" where
  "rename_data_of w search replace entity_data =
     (if truthy replace then substituted w search (the replace) entity_data
      else Inr (map (\<lambda>(name, ident). (name, ident, [])) entity_data))"

subsection \<open>Export\<close>

text \<open>\<open>write_to_csv\<close>: \<open>open(filename, mode="w", newline="")\<close> empties the file or raises;
  \<open>FileWrite\<close> is the file holding the rows when it is closed.\<close>

definition write_to_csv :: "world \<Rightarrow> table \<Rightarrow> string \<Rightarrow> unit run" where
  "write_to_csv w t filename =
     (if can_write w filename then
        bind (emit (FileWrite filename (writerows t))) (\<lambda>_.
        emit (Print (Text (''(Table written to '' @ filename @ '')''))))
      else raise OSError)"

text \<open>The files after a run: each \<open>FileWrite\<close> replaces the content of its file.\<close>

fun files_after :: "event list \<Rightarrow> (string \<rightharpoonup> string) \<Rightarrow> (string \<rightharpoonup> string)" where
  "files_after [] fs = fs"
| "files_after (FileWrite filename content # es) fs = files_after es (fs(filename \<mapsto> content))"
| "files_after (_ # es) fs = files_after es fs"

section \<open>Applier: \<open>rename_entities\<close>\<close>

definition quoted :: "string \<Rightarrow> string" where
  "quoted s = [CHR 0x27] @ s @ [CHR 0x27]"

text \<open>The dictionary \<open>entity_registry_update_msg\<close>.\<close>

definition update_msg :: "nat \<Rightarrow> rename_row \<Rightarrow> frame" where
  "update_msg index r =
     (case r of (name, ident, new_ident) \<Rightarrow>
        Update index ident
          (if new_ident \<noteq> [] then Some new_ident else None)
          (if name \<noteq> [] then Some name else None))"

definition success_msg :: "rename_row \<Rightarrow> string" where
  "success_msg r =
     (case r of (name, ident, new_ident) \<Rightarrow>
        ''Entity '' @ quoted ident
        @ (if new_ident \<noteq> [] then '' renamed to '' @ quoted new_ident else [])
        @ (if name \<noteq> [] then '' with friendly name '' @ quoted name else [])
        @ '' successfully!'')"

definition failure_msg :: "rename_row \<Rightarrow> update_result \<Rightarrow> string" where
  "failure_msg r update_result =
     (case r of (name, ident, new_ident) \<Rightarrow>
        ''Failed to update entity '' @ quoted ident @ '': ''
        @ (case error_message update_result of None \<Rightarrow> ''Unknown error'' | Some m \<Rightarrow> m))"

text \<open>\<open>await websocket.recv()\<close>: the next frame of the hub; it raises when the hub has
  closed the connection, which is when no frame is left.\<close>

definition recv :: "string list \<Rightarrow> (string \<times> string list) run" where
  "recv frames =
     (case frames of
        [] \<Rightarrow> raise WebSocketException
      | f # rest \<Rightarrow> bind (emit (WsRecv f)) (\<lambda>_. ret (f, rest)))"

text \<open>The loop \<open>for index, (...) in enumerate(rename_data, start=1)\<close>, from \<open>index\<close> on.\<close>

fun update_loop :: "world \<Rightarrow> nat \<Rightarrow> rename_row list \<Rightarrow> string list \<Rightarrow> unit run" where
  "update_loop w index [] frames = ret ()"
| "update_loop w index (r # rest) frames =
     bind (emit (WsSend (update_msg index r))) (\<lambda>_.
     bind (emit (Print (Sent (update_msg index r)))) (\<lambda>_.
     bind (recv frames) (\<lambda>(ws_update_result, frames').
     bind (emit (Print (Text (''<<< '' @ ws_update_result)))) (\<lambda>_.
     bind (lift (json_loads_result w ws_update_result)) (\<lambda>update_result.
     bind (emit (Print (Text (if success update_result then success_msg r
                              else failure_msg r update_result)))) (\<lambda>_.
     update_loop w (Suc index) rest frames'))))))"

text \<open>The body of \<open>async with websockets.connect(ha_url) as websocket\<close>.\<close>

definition session :: "world \<Rightarrow> rename_row list \<Rightarrow> unit run" where
  "session w rename_data =
     bind (recv (ws_frames w)) (\<lambda>(auth_request, frames).
     bind (emit (Print (Text (''<<< '' @ auth_request)))) (\<lambda>_.
     bind (emit (WsSend Auth)) (\<lambda>_.
     bind (emit (Print (Sent Auth))) (\<lambda>_.
     bind (recv frames) (\<lambda>(auth_result, frames').
     bind (emit (Print (Text (''<<< '' @ auth_result)))) (\<lambda>_.
     update_loop w 1 rename_data frames'))))))"

text \<open>\<open>WsConnect\<close> is the call of \<open>websockets.connect\<close>; the connection, once open, is
  closed when the block is left, by its end or by an exception.\<close>

definition rename_entities :: "world \<Rightarrow> rename_row list \<Rightarrow> unit run" where
  "rename_entities w rename_data =
     bind (emit WsConnect) (\<lambda>_.
       if ws_connects w
       then (case session w rename_data of (es, r) \<Rightarrow> (es @ [WsClose], r))
       else raise WebSocketException)"

section \<open>\<open>process_entities\<close> and \<open>main\<close>\<close>

definition prompt :: string where
  "prompt = LF # ''Do you want to proceed with renaming the entities? (y/N): ''"

text \<open>\<open>answer.lower()\<close>. Outside the letters A to Z the characters are left as they are:
  no other character has \<open>y\<close>, \<open>e\<close> or \<open>s\<close> as its lower case, so the test
  \<open>answer.lower() not in ["y", "yes"]\<close> is the script's.\<close>

definition lower_char :: "char \<Rightarrow> char" where
  "lower_char c =
     (if CHR ''A'' \<le> c \<and> c \<le> CHR ''Z'' then char_of (of_char c + (32 :: nat)) else c)"

definition lower :: "string \<Rightarrow> string" where
  "lower s = map lower_char s"

text \<open>Lines 147 to 152: the prompt, and the renaming after a yes.\<close>

definition confirm_and_rename :: "world \<Rightarrow> rename_row list \<Rightarrow> unit run" where
  "confirm_and_rename w rename_data =
     bind (emit (Input prompt)) (\<lambda>_.
     bind (case stdin_line w of None \<Rightarrow> raise EOFError | Some answer \<Rightarrow> ret answer) (\<lambda>answer.
       if lower answer \<notin> set [''y'', ''yes'']
       then emit (Print (Text ''Renaming process aborted.''))
       else rename_entities w rename_data))"

text \<open>Lines 102 to 130: \<open>rename_data\<close> as it stands before the table is printed, or
  \<open>None\<close> when the function has returned on an input file without rows. The rows
  computed from the entities hold strings only.\<close>

definition cells_of :: "rename_row \<Rightarrow> cell \<times> cell \<times> cell" where
  "cells_of r = (case r of (name, ident, new_ident) \<Rightarrow> (Some name, Some ident, Some new_ident))"

definition build_rename_data ::
  "world \<Rightarrow> (string \<times> string) list \<Rightarrow> string option \<Rightarrow> string option \<Rightarrow> string option \<Rightarrow>
   (cell \<times> cell \<times> cell) list option run" where
  "build_rename_data w entity_data search replace input_filename =
     (if truthy input_filename then
        bind (read_rename_data w (the input_filename)) (\<lambda>rename_data.
          if rename_data = []
          then bind (emit (Print (Text ''No data found in the input file.''))) (\<lambda>_. ret None)
          else ret (Some rename_data))
      else
        bind (lift (rename_data_of w search replace entity_data)) (\<lambda>rename_data.
          ret (Some (map cells_of rename_data))))"

text \<open>Lines 132 to 152: the table, the export, the gate and the prompt. The call of
  \<open>align_strings\<close> comes first; \<open>strings_of\<close> is its \<open>TypeError\<close>.\<close>

definition present ::
  "world \<Rightarrow> (cell \<times> cell \<times> cell) list \<Rightarrow> string option \<Rightarrow> string option \<Rightarrow> string option \<Rightarrow>
   unit run" where
  "present w cells replace out input_filename =
     bind (lift (strings_of cells)) (\<lambda>rename_data.
     bind (lift (align_strings (map row_of rename_data))) (\<lambda>aligned.
     bind (emit (Print (Table (header # aligned)))) (\<lambda>_.
     bind (if truthy out then write_to_csv w (header # map row_of rename_data) (the out)
           else ret ()) (\<lambda>_.
       if \<not> truthy replace \<and> \<not> truthy input_filename then ret ()
       else confirm_and_rename w rename_data))))"

definition process_entities ::
  "world \<Rightarrow> (string \<times> string) list \<Rightarrow> string option \<Rightarrow> string option \<Rightarrow> string option \<Rightarrow>
   string option \<Rightarrow> unit run" where
  "process_entities w entity_data search replace out input_filename =
     bind (build_rename_data w entity_data search replace input_filename) (\<lambda>built.
       case built of
         None \<Rightarrow> ret ()
       | Some cells \<Rightarrow> present w cells replace out input_filename)"

text \<open>The parsed command line: the values of \<open>--input-file\<close>, \<open>--search\<close>, \<open>--replace\<close>
  and \<open>--output-file\<close>, each \<open>None\<close> when the option is absent.\<close>

record args =
  input_file :: "string option"
  search_regex :: "string option"
  replace_regex :: "string option"
  output_file :: "string option"

definition main :: "world \<Rightarrow> args \<Rightarrow> unit run" where
  "main w a =
     (if truthy (search_regex a) \<and> truthy (input_file a) then
        emit (Print (Text ''Error: --search and --input-file cannot be used together.''))
      else if truthy (replace_regex a) \<and> \<not> truthy (search_regex a) then
        emit (Print (Text ''Error: --replace requires --search.''))
      else if truthy (search_regex a) then
        bind (list_entities w (search_regex a)) (\<lambda>entity_data.
          if entity_data \<noteq> []
          then process_entities w entity_data (search_regex a) (replace_regex a) (output_file a) None
          else emit (Print (Text ''No entities found matching the search regex.'')))
      else if truthy (input_file a) then
        process_entities w [] None None (output_file a) (input_file a)
      else emit (Print Help))"

section \<open>Kinds of events\<close>

text \<open>The events of the control channel, the prompt, and the events a preview is made
  of: the listing, what is printed and the export.\<close>

fun control_channel :: "event \<Rightarrow> bool" where
  "control_channel WsConnect = True"
| "control_channel (WsRecv f) = True"
| "control_channel (WsSend m) = True"
| "control_channel WsClose = True"
| "control_channel ev = False"

fun is_prompt :: "event \<Rightarrow> bool" where
  "is_prompt (Input p) = True"
| "is_prompt ev = False"

fun is_write :: "event \<Rightarrow> bool" where
  "is_write (FileWrite filename content) = True"
| "is_write ev = False"

fun preview_event :: "event \<Rightarrow> bool" where
  "preview_event HttpGet = True"
| "preview_event (Print p) = True"
| "preview_event (FileWrite filename content) = True"
| "preview_event ev = False"

section \<open>A sample world\<close>

text \<open>A hub with three entities that rejects the first update and accepts the second, a
  plan file with two rows, and an operator who answers \<open>Yes\<close>.\<close>

definition sample_entities :: "entity list" where
  "sample_entities =
     [\<lparr>entity_id = ''light.kitchen_old'', friendly_name = Some ''Kitchen''\<rparr>,
      \<lparr>entity_id = ''switch.a'', friendly_name = None\<rparr>,
      \<lparr>entity_id = ''light.b_old'', friendly_name = Some ''B''\<rparr>]"

definition sample_plan_file :: string where
  "sample_plan_file =
     ''Friendly Name,Current Entity ID,New Entity ID'' @ [LF]
     @ '',light.a,light.b'' @ [LF]
     @ '',switch.c,'' @ [LF]"

definition sample_world :: world where
  "sample_world =
     \<lparr>http_get = Inr \<lparr>status_code = 200, text_of = ''[...]''\<rparr>,
      json_loads_states = (\<lambda>body. Inr sample_entities),
      engine_search = (\<lambda>pattern s. Inl ReError),
      engine_sub = (\<lambda>pattern repl s. Inl ReError),
      files = [''plan.csv'' \<mapsto> sample_plan_file],
      can_write = (\<lambda>filename. True),
      stdin_line = Some ''Yes'',
      ws_connects = True,
      ws_frames = [''auth_required'', ''auth_ok'', ''no'', ''yes''],
      json_loads_result =
        (\<lambda>f. if f = ''yes'' then Inr \<lparr>success = True, error_message = None\<rparr>
             else if f = ''no'' then Inr \<lparr>success = False, error_message = Some ''not found''\<rparr>
             else Inl JSONDecodeError)\<rparr>"

section \<open>The events of the update loop\<close>

text \<open>What the loop prints after a response frame, the events of one turn of the loop
  (\<open>index\<close>, row, response frame), and the frames sent in a run.\<close>

definition report :: "world \<Rightarrow> rename_row \<Rightarrow> string \<Rightarrow> string" where
  "report w r f =
     (case json_loads_result w f of
        Inl e \<Rightarrow> []
      | Inr update_result \<Rightarrow>
          if success update_result then success_msg r else failure_msg r update_result)"

definition update_events :: "world \<Rightarrow> nat \<times> rename_row \<times> string \<Rightarrow> event list" where
  "update_events w x =
     (case x of (index, r, f) \<Rightarrow>
        [WsSend (update_msg index r), Print (Sent (update_msg index r)),
         WsRecv f, Print (Text (''<<< '' @ f)), Print (Text (report w r f))])"

fun sent_frames :: "event list \<Rightarrow> frame list" where
  "sent_frames [] = []"
| "sent_frames (WsSend m # es) = m # sent_frames es"
| "sent_frames (ev # es) = sent_frames es"

section \<open>The reader, character by character\<close>

text \<open>
  The reader seen over the text of a file whose lines all end in a line feed: \<open>feed\<close> is
  the processing of the characters of a part of a line, \<open>step\<close> that of one character
  with the end of the line after a line feed, and \<open>run_chars\<close> the reading of the records
  from a text. \<open>unix_rows\<close> is what \<open>writerows\<close> writes, with its line terminators
  read as line feeds.
\<close>

fun feed :: "reader \<Rightarrow> string \<Rightarrow> error + reader" where
  "feed rd [] = Inr rd"
| "feed rd (c # s) =
     (case parse_process_char rd (Some c) of
        Inl e \<Rightarrow> Inl e
      | Inr rd' \<Rightarrow> feed rd' s)"

definition step :: "reader \<Rightarrow> char \<Rightarrow> error + reader" where
  "step rd c =
     (case parse_process_char rd (Some c) of
        Inl e \<Rightarrow> Inl e
      | Inr rd' \<Rightarrow> if c = LF then parse_process_char rd' None else Inr rd')"

fun run_chars :: "reader \<Rightarrow> string \<Rightarrow> string list list \<times> error option" where
  "run_chars rd [] =
     (if field_chars rd \<noteq> [] \<or> state rd = IN_QUOTED_FIELD
      then ([saved_fields (parse_save_field rd)], None)
      else ([], None))"
| "run_chars rd (c # s) =
     (case step rd c of
        Inl e \<Rightarrow> ([], Some e)
      | Inr rd' \<Rightarrow>
          if c = LF \<and> state rd' = START_RECORD
          then (case run_chars parse_reset s of (rows, e) \<Rightarrow> (saved_fields rd' # rows, e))
          else run_chars rd' s)"

definition unix_rows :: "table \<Rightarrow> string" where
  "unix_rows rows =
     concat (map (\<lambda>row. (if row = [[]] then [DQ, DQ] else join_fields (map write_field row)) @ [LF])
               rows)"

section \<open>Properties of \<open>align_strings\<close>\<close>


lemma split_join: "alignment_char \<in> set s \<Longrightarrow> split_head s @ ''.'' @ split_rest s = s"
  unfolding split_head_def split_rest_def alignment_char_def
  by (induction s) auto

lemma align_string_pad:
  "alignment_char \<in> set s \<Longrightarrow>
   align_string n s = replicate (n - length (split_head s)) CHR '' '' @ s"
  using split_join[of s] by (simp add: align_string_def rjust_def)

lemma align_string_id: "alignment_char \<notin> set s \<Longrightarrow> align_string n s = s"
  by (simp add: align_string_def)

lemma max_list_ge: "n \<in> set ns \<Longrightarrow> n \<le> max_list ns"
  unfolding max_list_def by (induction ns) auto

lemma max_list_Max: "ns \<noteq> [] \<Longrightarrow> max_list ns = Max (set ns)"
  unfolding max_list_def
proof (induction ns)
  case Nil then show ?case by simp
next
  case (Cons a ns)
  show ?case
  proof (cases "ns = []")
    case True then show ?thesis by simp
  next
    case False
    with Cons show ?thesis by simp
  qed
qed

lemma length_aligned_upto: "length (aligned_upto k t) = length t"
  by (simp add: aligned_upto_def)

lemma nth_aligned_upto_length:
  "r < length t \<Longrightarrow> length (aligned_upto k t ! r) = length (t ! r)"
  by (simp add: aligned_upto_def)

lemma nth_aligned_upto:
  "r < length t \<Longrightarrow> c < length (t ! r) \<Longrightarrow>
   aligned_upto k t ! r ! c = (if c < k then pad_cell t c (t ! r ! c) else t ! r ! c)"
  by (simp add: aligned_upto_def nth_enumerate_eq)

lemma aligned_upto_0: "aligned_upto 0 t = t"
  unfolding aligned_upto_def
  by (simp add: list_eq_iff_nth_eq nth_enumerate_eq)


lemma column_data_aligned_upto:
  assumes "\<forall>row\<in>set t. k < length row"
  shows "column_data k (aligned_upto k t) = Inr (map (\<lambda>row. row ! k) t)"
proof -
  have len: "\<And>r. r < length t \<Longrightarrow> k < length (t ! r)"
    using assms by simp
  have "list_all (\<lambda>row. k < length row) (aligned_upto k t)"
    using assms by (simp add: aligned_upto_def list_all_iff)
  moreover have "map (\<lambda>row. row ! k) (aligned_upto k t) = map (\<lambda>row. row ! k) t"
    by (rule nth_equalityI) (simp_all add: length_aligned_upto nth_aligned_upto len)
  ultimately show ?thesis by (simp add: column_data_def)
qed

lemma pad_cell_no_period:
  assumes "filter (\<lambda>s. alignment_char \<in> set s) (map (\<lambda>row. row ! c) t) = []"
    and "r < length t"
  shows "pad_cell t c (t ! r ! c) = t ! r ! c"
proof -
  have "t ! r ! c \<in> set (map (\<lambda>row. row ! c) t)" using assms(2) by simp
  hence "alignment_char \<notin> set (t ! r ! c)"
    using assms(1) by (metis (mono_tags, lifting) empty_iff empty_set mem_Collect_eq set_filter)
  thus ?thesis by (simp add: pad_cell_def)
qed

lemma pad_cell_align_string:
  "pad_cell t c v = align_string (column_width t c) v"
  by (simp add: pad_cell_def align_string_pad align_string_id)

lemma align_column_step:
  assumes "\<forall>row\<in>set t. k < length row"
  shows "align_column k (aligned_upto k t) = Inr (aligned_upto (Suc k) t)"
proof (cases "filter (\<lambda>s. alignment_char \<in> set s) (map (\<lambda>row. row ! k) t) = []")
  case True
  have "aligned_upto (Suc k) t = aligned_upto k t"
  proof (rule nth_equalityI)
    show "length (aligned_upto (Suc k) t) = length (aligned_upto k t)"
      by (simp add: length_aligned_upto)
  next
    fix r assume "r < length (aligned_upto (Suc k) t)"
    hence r: "r < length t" by (simp add: length_aligned_upto)
    show "aligned_upto (Suc k) t ! r = aligned_upto k t ! r"
    proof (rule nth_equalityI)
      show "length (aligned_upto (Suc k) t ! r) = length (aligned_upto k t ! r)"
        using r by (simp add: nth_aligned_upto_length)
    next
      fix c assume "c < length (aligned_upto (Suc k) t ! r)"
      hence c: "c < length (t ! r)" using r by (simp add: nth_aligned_upto_length)
      show "aligned_upto (Suc k) t ! r ! c = aligned_upto k t ! r ! c"
        using r c pad_cell_no_period[OF True r]
        by (auto simp add: nth_aligned_upto less_Suc_eq)
    qed
  qed
  with True show ?thesis
    by (simp add: align_column_def column_data_aligned_upto[OF assms])
next
  case False
  have "map (\<lambda>row. map (\<lambda>(i, v). if i = k then align_string (column_width t k) v else v)
                (enumerate 0 row)) (aligned_upto k t) = aligned_upto (Suc k) t"
  proof (rule nth_equalityI)
    show "length (map (\<lambda>row. map (\<lambda>(i, v). if i = k then align_string (column_width t k) v else v)
                (enumerate 0 row)) (aligned_upto k t)) = length (aligned_upto (Suc k) t)"
      by (simp add: length_aligned_upto)
  next
    fix r assume "r < length (map (\<lambda>row. map (\<lambda>(i, v). if i = k then align_string (column_width t k) v else v)
                (enumerate 0 row)) (aligned_upto k t))"
    hence r: "r < length t" by (simp add: length_aligned_upto)
    show "map (\<lambda>row. map (\<lambda>(i, v). if i = k then align_string (column_width t k) v else v)
                (enumerate 0 row)) (aligned_upto k t) ! r = aligned_upto (Suc k) t ! r"
    proof (rule nth_equalityI)
      show "length (map (\<lambda>row. map (\<lambda>(i, v). if i = k then align_string (column_width t k) v else v)
                (enumerate 0 row)) (aligned_upto k t) ! r) = length (aligned_upto (Suc k) t ! r)"
        using r by (simp add: length_aligned_upto nth_aligned_upto_length)
    next
      fix c assume "c < length (map (\<lambda>row. map (\<lambda>(i, v). if i = k then align_string (column_width t k) v else v)
                (enumerate 0 row)) (aligned_upto k t) ! r)"
      hence c: "c < length (t ! r)"
        using r by (simp add: length_aligned_upto nth_aligned_upto_length)
      show "map (\<lambda>row. map (\<lambda>(i, v). if i = k then align_string (column_width t k) v else v)
                (enumerate 0 row)) (aligned_upto k t) ! r ! c = aligned_upto (Suc k) t ! r ! c"
        using r c
        by (auto simp add: length_aligned_upto nth_aligned_upto_length nth_aligned_upto
            nth_enumerate_eq pad_cell_align_string less_Suc_eq)
    qed
  qed
  from this[unfolded column_width_def] False show ?thesis
    by (simp add: align_column_def column_data_aligned_upto[OF assms])
qed

lemma align_columns_upt:
  assumes "\<forall>row\<in>set t. n \<le> length row"
  shows "k \<le> n \<Longrightarrow> align_columns [k..<n] (aligned_upto k t) = Inr (aligned_upto n t)"
proof (induction "n - k" arbitrary: k)
  case 0
  then show ?case by simp
next
  case (Suc d)
  hence kn: "k < n" by simp
  have "\<forall>row\<in>set t. k < length row" using assms kn by auto
  from align_column_step[OF this] Suc.hyps(1)[of "Suc k"] Suc.hyps(2) kn
  show ?case by (simp add: upt_conv_Cons)
qed

lemma align_strings_closed:
  assumes "\<forall>row\<in>set t. length (t ! 0) \<le> length row"
  shows "align_strings t = Inr (aligned_upto (length (t ! 0)) t)"
proof (cases "t = []")
  case True
  then show ?thesis by (simp add: align_strings_def aligned_upto_def)
next
  case False
  with align_columns_upt[OF assms, of 0] show ?thesis
    by (simp add: align_strings_def aligned_upto_0)
qed

lemma column_width_Max:
  assumes "row \<in> set t" "alignment_char \<in> set (row ! c)"
  shows "column_width t c =
    Max {length (split_head (row ! c)) | row. row \<in> set t \<and> alignment_char \<in> set (row ! c)}"
proof -
  let ?ns = "map (\<lambda>s. length (split_head s))
                (filter (\<lambda>s. alignment_char \<in> set s) (map (\<lambda>row. row ! c) t))"
  have "length (split_head (row ! c)) \<in> set ?ns" using assms by auto
  hence "?ns \<noteq> []" by (metis empty_iff list.set(1))
  hence "column_width t c = Max (set ?ns)"
    unfolding column_width_def by (rule max_list_Max)
  moreover have "set ?ns =
    {length (split_head (row ! c)) | row. row \<in> set t \<and> alignment_char \<in> set (row ! c)}"
    by auto
  ultimately show ?thesis by simp
qed

lemma split_head_le_width:
  assumes "row \<in> set t" "alignment_char \<in> set (row ! c)"
  shows "length (split_head (row ! c)) \<le> column_width t c"
  unfolding column_width_def using assms by (intro max_list_ge) auto

lemma split_head_pad:
  "split_head (replicate n CHR '' '' @ s) = replicate n CHR '' '' @ split_head s"
  by (induction n) (simp_all add: split_head_def alignment_char_def)

text \<open>
  Claim C8. Take a table none of whose rows is shorter than the first (the script's rows
  are all triples). \<open>align_strings\<close> returns a table of the same shape, and in a column
  of the first row's width every cell with a period is the old cell with spaces put in
  front: as many as its part before the first period is shorter than the longest such
  part of the column, so that the first period of every such cell stands at that width.
  A cell without a period is kept as it is. The columns \<open>a.bc\<close>, \<open>abc.d\<close>, \<open>x\<close>
  come out as two spaces and \<open>a.bc\<close>, then \<open>abc.d\<close>, then \<open>x\<close>.
\<close>

theorem align_strings_lines_up_periods:
  assumes "\<forall>row\<in>set t. length (t ! 0) \<le> length row"
  shows "(\<exists>t'. align_strings t = Inr t' \<and> length t' = length t \<and>
      (\<forall>r<length t. length (t' ! r) = length (t ! r) \<and>
        (\<forall>c<length (t ! r).
           (c < length (t ! 0) \<and> alignment_char \<in> set (t ! r ! c) \<longrightarrow>
              t' ! r ! c =
                replicate
                  (Max {length (split_head (row ! c)) | row.
                          row \<in> set t \<and> alignment_char \<in> set (row ! c)}
                   - length (split_head (t ! r ! c))) CHR '' '' @ t ! r ! c \<and>
              length (split_head (t' ! r ! c)) =
                Max {length (split_head (row ! c)) | row.
                       row \<in> set t \<and> alignment_char \<in> set (row ! c)}) \<and>
           (alignment_char \<notin> set (t ! r ! c) \<longrightarrow> t' ! r ! c = t ! r ! c)))) \<and>
    align_strings [[''a.bc''], [''abc.d''], [''x'']] = Inr [[''  a.bc''], [''abc.d''], [''x'']]"
proof (intro conjI)
  let ?t' = "aligned_upto (length (t ! 0)) t"
  have eq: "align_strings t = Inr ?t'" by (rule align_strings_closed[OF assms])
  have cells: "length (?t' ! r) = length (t ! r) \<and>
        (\<forall>c<length (t ! r).
           (c < length (t ! 0) \<and> alignment_char \<in> set (t ! r ! c) \<longrightarrow>
              ?t' ! r ! c =
                replicate
                  (Max {length (split_head (row ! c)) | row.
                          row \<in> set t \<and> alignment_char \<in> set (row ! c)}
                   - length (split_head (t ! r ! c))) CHR '' '' @ t ! r ! c \<and>
              length (split_head (?t' ! r ! c)) =
                Max {length (split_head (row ! c)) | row.
                       row \<in> set t \<and> alignment_char \<in> set (row ! c)}) \<and>
           (alignment_char \<notin> set (t ! r ! c) \<longrightarrow> ?t' ! r ! c = t ! r ! c))"
    if r: "r < length t" for r
  proof (intro conjI allI impI)
    show "length (?t' ! r) = length (t ! r)" using r by (rule nth_aligned_upto_length)
  next
    fix c assume c: "c < length (t ! r)"
      and "c < length (t ! 0) \<and> alignment_char \<in> set (t ! r ! c)"
    hence c0: "c < length (t ! 0)" and per: "alignment_char \<in> set (t ! r ! c)" by simp_all
    have mem: "t ! r \<in> set t" using r by simp
    note W = column_width_Max[OF mem per]
    show pad: "?t' ! r ! c =
                replicate
                  (Max {length (split_head (row ! c)) | row.
                          row \<in> set t \<and> alignment_char \<in> set (row ! c)}
                   - length (split_head (t ! r ! c))) CHR '' '' @ t ! r ! c"
      using r c c0 per by (simp add: nth_aligned_upto pad_cell_def W)
    show "length (split_head (?t' ! r ! c)) =
                Max {length (split_head (row ! c)) | row.
                       row \<in> set t \<and> alignment_char \<in> set (row ! c)}"
      using split_head_le_width[OF mem per]
      unfolding pad split_head_pad W[symmetric] by simp
  next
    fix c assume c: "c < length (t ! r)" and "alignment_char \<notin> set (t ! r ! c)"
    thus "?t' ! r ! c = t ! r ! c"
      using r by (simp add: nth_aligned_upto pad_cell_def)
  qed
  have all: "\<forall>r<length t. length (?t' ! r) = length (t ! r) \<and>
        (\<forall>c<length (t ! r).
           (c < length (t ! 0) \<and> alignment_char \<in> set (t ! r ! c) \<longrightarrow>
              ?t' ! r ! c =
                replicate
                  (Max {length (split_head (row ! c)) | row.
                          row \<in> set t \<and> alignment_char \<in> set (row ! c)}
                   - length (split_head (t ! r ! c))) CHR '' '' @ t ! r ! c \<and>
              length (split_head (?t' ! r ! c)) =
                Max {length (split_head (row ! c)) | row.
                       row \<in> set t \<and> alignment_char \<in> set (row ! c)}) \<and>
           (alignment_char \<notin> set (t ! r ! c) \<longrightarrow> ?t' ! r ! c = t ! r ! c))"
    using cells by blast
  show "\<exists>t'. align_strings t = Inr t' \<and> length t' = length t \<and>
      (\<forall>r<length t. length (t' ! r) = length (t ! r) \<and>
        (\<forall>c<length (t ! r).
           (c < length (t ! 0) \<and> alignment_char \<in> set (t ! r ! c) \<longrightarrow>
              t' ! r ! c =
                replicate
                  (Max {length (split_head (row ! c)) | row.
                          row \<in> set t \<and> alignment_char \<in> set (row ! c)}
                   - length (split_head (t ! r ! c))) CHR '' '' @ t ! r ! c \<and>
              length (split_head (t' ! r ! c)) =
                Max {length (split_head (row ! c)) | row.
                       row \<in> set t \<and> alignment_char \<in> set (row ! c)}) \<and>
           (alignment_char \<notin> set (t ! r ! c) \<longrightarrow> t' ! r ! c = t ! r ! c)))"
    by (rule exI[of _ ?t'], intro conjI, rule eq, rule length_aligned_upto, rule all)
next
  show "align_strings [[''a.bc''], [''abc.d''], [''x'']] = Inr [[''  a.bc''], [''abc.d''], [''x'']]"
    by code_simp
qed

theorem align_strings_lines_up_periods_witness:
  "list_all (\<lambda>row. length ([[''a.bc'', ''k''], [''abc.d'', ''l''], [''x'', ''m'']] ! 0) \<le> length row)
      [[''a.bc'', ''k''], [''abc.d'', ''l''], [''x'', ''m'']] \<and>
   (\<exists>t'. align_strings [[''a.bc'', ''k''], [''abc.d'', ''l''], [''x'', ''m'']] = Inr t' \<and>
      length t' = 3 \<and> t' ! 2 ! 0 = ''x'')"
proof -
  let ?t = "[[''a.bc'', ''k''], [''abc.d'', ''l''], [''x'', ''m'']]"
  have h: "\<forall>row\<in>set ?t. length (?t ! 0) \<le> length row" by simp
  from align_strings_lines_up_periods[OF h]
  obtain t' where t': "align_strings ?t = Inr t'" "length t' = length ?t"
    and cells: "\<forall>r<length ?t. length (t' ! r) = length (?t ! r) \<and>
        (\<forall>c<length (?t ! r).
           (c < length (?t ! 0) \<and> alignment_char \<in> set (?t ! r ! c) \<longrightarrow>
              t' ! r ! c =
                replicate
                  (Max {length (split_head (row ! c)) | row.
                          row \<in> set ?t \<and> alignment_char \<in> set (row ! c)}
                   - length (split_head (?t ! r ! c))) CHR '' '' @ ?t ! r ! c \<and>
              length (split_head (t' ! r ! c)) =
                Max {length (split_head (row ! c)) | row.
                       row \<in> set ?t \<and> alignment_char \<in> set (row ! c)}) \<and>
           (alignment_char \<notin> set (?t ! r ! c) \<longrightarrow> t' ! r ! c = ?t ! r ! c))"
    by blast
  have a: "t' ! 2 ! 0 = ''x''"
    using cells[rule_format, of 2, THEN conjunct2, rule_format, of 0]
    by (simp add: alignment_char_def)
  show ?thesis using t' a by simp
qed


section \<open>Laws of runs\<close>

lemma bind_ret: "bind (ret a) f = f a"
  by (simp add: bind_def ret_def split: prod.splits)

lemma bind_raise: "bind (raise e) f = raise e"
  by (simp add: bind_def raise_def)

lemma bind_lift_Inr: "bind (lift (Inr a)) f = f a"
  by (simp add: bind_def lift_def split: prod.splits)

lemma bind_lift_Inl: "bind (lift (Inl e)) f = raise e"
  by (simp add: bind_def lift_def raise_def)

lemma bind_emit: "bind (emit ev) f = (ev # fst (f ()), snd (f ()))"
  by (simp add: bind_def emit_def split: prod.splits)

lemma bind_pair_Inr: "bind (es, Inr a) f = (es @ fst (f a), snd (f a))"
  by (simp add: bind_def split: prod.splits)

lemma bind_pair_Inl: "bind (es, Inl e) f = (es, Inl e)"
  by (simp add: bind_def)

lemma fst_bind:
  "fst (bind m f) = fst m @ (case snd m of Inl e \<Rightarrow> [] | Inr a \<Rightarrow> fst (f a))"
  by (cases m) (auto simp: bind_def split: sum.splits prod.splits)

lemmas run_simps = bind_ret bind_raise bind_lift_Inr bind_lift_Inl bind_emit bind_pair_Inr
  bind_pair_Inl

section \<open>Properties of \<open>list_entities\<close>\<close>

lemma contains_Nil: "contains [] s"
  by (cases s) simp_all

lemma contains_iff: "contains p s \<longleftrightarrow> (\<exists>pre post. s = pre @ p @ post)"
proof (induction s)
  case Nil
  then show ?case by auto
next
  case (Cons c s)
  show ?case
  proof
    assume "contains p (c # s)"
    then consider "prefix p (c # s)" | "contains p s" by auto
    then show "\<exists>pre post. c # s = pre @ p @ post"
    proof cases
      case 1
      then obtain post where "c # s = p @ post" by (auto simp: prefix_def)
      then have "c # s = [] @ p @ post" by simp
      then show ?thesis by blast
    next
      case 2
      with Cons.IH obtain pre post where "s = pre @ p @ post" by blast
      then have "c # s = (c # pre) @ p @ post" by simp
      then show ?thesis by blast
    qed
  next
    assume "\<exists>pre post. c # s = pre @ p @ post"
    then obtain pre post where eq: "c # s = pre @ p @ post" by blast
    show "contains p (c # s)"
    proof (cases pre)
      case Nil
      with eq have "prefix p (c # s)" by (simp add: prefix_def)
      then show ?thesis by simp
    next
      case (Cons a pre')
      with eq have "s = pre' @ p @ post" by simp
      with Cons.IH have "contains p s" by blast
      then show ?thesis by simp
    qed
  qed
qed

lemma filter_entities_filter:
  assumes "\<forall>x\<in>set xs. re_search w p (snd x) \<in> {Inr True, Inr False}"
  shows "filter_entities w p xs = Inr (filter (\<lambda>x. re_search w p (snd x) = Inr True) xs)"
  using assms
proof (induction xs)
  case Nil
  then show ?case by simp
next
  case (Cons x xs)
  obtain name ident where x: "x = (name, ident)" by (cases x)
  from Cons.prems have "re_search w p ident = Inr True \<or> re_search w p ident = Inr False"
    by (simp add: x)
  moreover from Cons have "filter_entities w p xs = Inr (filter (\<lambda>x. re_search w p (snd x) = Inr True) xs)"
    by simp
  ultimately show ?case by (auto simp: x)
qed

text \<open>
  Claim C6. When the hub answers the listing with status 200 and a body that decodes to
  the entities \<open>data\<close>, and searching the pattern in their identifiers raises no error,
  \<open>list_entities\<close> returns the pairs of display name and identifier of exactly the
  entities whose identifier the pattern is found in, sorted by display name: the names
  of the result ascend, and the pairs with one and the same name stand in the order they
  had in the hub's answer. A pattern without special characters is found in an identifier
  when it is a substring of it, wherever it stands. The order of the names is the order of
  the character codes, so capital letters come first.
\<close>

theorem list_entities_filters_then_sorts:
  assumes "http_get w = Inr resp" and "status_code resp = 200"
    and "json_loads_states w (text_of resp) = Inr data"
    and "\<forall>e\<in>set data. re_search w pattern (entity_id e) \<in> {Inr True, Inr False}"
  shows "(\<exists>result.
      list_entities w (Some pattern) = ([HttpGet], Inr result) \<and>
      result = sort_key fst
        (filter (\<lambda>x. re_search w pattern (snd x) = Inr True)
          (map (\<lambda>e. (case friendly_name e of None \<Rightarrow> [] | Some name \<Rightarrow> name, entity_id e)) data)) \<and>
      sorted (map fst result) \<and>
      (\<forall>name. filter (\<lambda>x. fst x = name) result =
         filter (\<lambda>x. fst x = name)
           (filter (\<lambda>x. re_search w pattern (snd x) = Inr True)
             (map (\<lambda>e. (case friendly_name e of None \<Rightarrow> [] | Some name \<Rightarrow> name, entity_id e)) data)))) \<and>
    (plain pattern \<longrightarrow>
       (\<forall>s. re_search w pattern s = Inr (\<exists>before after. s = before @ pattern @ after))) \<and>
    sorted_by_name [(''b'', ''1''), (''B'', ''2''), (''a'', ''3''), (''B'', ''4'')] =
      [(''B'', ''2''), (''B'', ''4''), (''a'', ''3''), (''b'', ''1'')]"
proof (intro conjI)
  let ?pairs = "map (\<lambda>e. (case friendly_name e of None \<Rightarrow> [] | Some name \<Rightarrow> name, entity_id e)) data"
  let ?kept = "filter (\<lambda>x. re_search w pattern (snd x) = Inr True) ?pairs"
  have ok: "\<forall>x\<in>set ?pairs. re_search w pattern (snd x) \<in> {Inr True, Inr False}"
    using assms(4) by auto
  have filt: "filter_entities w pattern ?pairs = Inr ?kept"
    by (rule filter_entities_filter[OF ok])
  have all: "?kept = ?pairs" if "pattern = []"
    using that by (simp add: re_search_def plain_def contains_Nil)
  have run: "list_entities w (Some pattern) = ([HttpGet], Inr (sort_key fst ?kept))"
  proof (cases "pattern = []")
    case True
    with all show ?thesis
      by (simp add: list_entities_def assms(1-3) run_simps sorted_by_name_def ret_def)
  next
    case False
    then show ?thesis
      by (simp add: list_entities_def assms(1-3) run_simps sorted_by_name_def ret_def filt)
  qed
  show "\<exists>result.
      list_entities w (Some pattern) = ([HttpGet], Inr result) \<and>
      result = sort_key fst ?kept \<and>
      sorted (map fst result) \<and>
      (\<forall>name. filter (\<lambda>x. fst x = name) result = filter (\<lambda>x. fst x = name) ?kept)"
    using run by (simp add: sort_key_stable)
next
  show "plain pattern \<longrightarrow>
       (\<forall>s. re_search w pattern s = Inr (\<exists>before after. s = before @ pattern @ after))"
    by (simp add: re_search_def contains_iff)
next
  show "sorted_by_name [(''b'', ''1''), (''B'', ''2''), (''a'', ''3''), (''B'', ''4'')] =
      [(''B'', ''2''), (''B'', ''4''), (''a'', ''3''), (''b'', ''1'')]"
    by (simp add: sorted_by_name_def)
qed

theorem list_entities_filters_then_sorts_witness:
  "http_get sample_world = Inr \<lparr>status_code = 200, text_of = ''[...]''\<rparr> \<and>
   list_all (\<lambda>e. re_search sample_world ''old'' (entity_id e) = Inr True \<or>
                  re_search sample_world ''old'' (entity_id e) = Inr False) sample_entities \<and>
   list_entities sample_world (Some ''old'') =
     ([HttpGet], Inr [(''B'', ''light.b_old''), (''Kitchen'', ''light.kitchen_old'')])"
proof -
  let ?resp = "\<lparr>status_code = 200, text_of = ''[...]''\<rparr>"
  have h1: "http_get sample_world = Inr ?resp" by (simp add: sample_world_def)
  have h2: "status_code ?resp = 200" by simp
  have h3: "json_loads_states sample_world (text_of ?resp) = Inr sample_entities"
    by (simp add: sample_world_def)
  have h4: "\<forall>e\<in>set sample_entities.
      re_search sample_world ''old'' (entity_id e) \<in> {Inr True, Inr False}"
    by (simp add: sample_entities_def re_search_def plain_def special_characters_def)
  from list_entities_filters_then_sorts[OF h1 h2 h3 h4]
  obtain result where r: "list_entities sample_world (Some ''old'') = ([HttpGet], Inr result)"
    and s: "result = sort_key fst
        (filter (\<lambda>x. re_search sample_world ''old'' (snd x) = Inr True)
          (map (\<lambda>e. (case friendly_name e of None \<Rightarrow> [] | Some name \<Rightarrow> name, entity_id e))
            sample_entities))"
    by blast
  have "result = [(''B'', ''light.b_old''), (''Kitchen'', ''light.kitchen_old'')]"
    unfolding s by (simp add: sample_entities_def re_search_def plain_def special_characters_def)
  with r h1 h4 show ?thesis by (simp add: list_all_iff)
qed

section \<open>Properties of the planner\<close>


lemma substituted_rows:
  "substituted w (Some p) r xs = Inr rd \<Longrightarrow>
   list_all2 (\<lambda>x row. fst row = fst x \<and> fst (snd row) = snd x \<and>
                        re_sub w p r (snd x) = Inr (snd (snd row))) xs rd"
proof (induction xs arbitrary: rd)
  case Nil
  then show ?case by simp
next
  case (Cons x xs)
  obtain name ident where x: "x = (name, ident)" by (cases x)
  from Cons.prems obtain new_ident rows where
    "re_sub w p r ident = Inr new_ident" "substituted w (Some p) r xs = Inr rows"
    "rd = (name, ident, new_ident) # rows"
    by (auto simp: x split: sum.splits)
  with Cons.IH[of rows] show ?case by (simp add: x)
qed

lemma substituted_total:
  "\<forall>x\<in>set xs. \<exists>new_ident. re_sub w p r (snd x) = Inr new_ident \<Longrightarrow>
   \<exists>rd. substituted w (Some p) r xs = Inr rd"
proof (induction xs)
  case Nil
  then show ?case by simp
next
  case (Cons x xs)
  obtain name ident where x: "x = (name, ident)" by (cases x)
  from Cons.prems obtain new_ident where "re_sub w p r ident = Inr new_ident"
    by (auto simp: x)
  moreover from Cons obtain rows where "substituted w (Some p) r xs = Inr rows" by auto
  ultimately show ?case by (simp add: x)
qed

lemma plain_kitchen_old: "plain ''kitchen_old''"
  by (simp add: plain_def special_characters_def)

lemma re_sub_kitchen:
  "re_sub w ''kitchen_old'' ''kitchen_new'' ''light.kitchen_old'' = Inr ''light.kitchen_new''"
  by (simp add: re_sub_def plain_kitchen_old)

lemma re_sub_kitchen_empty:
  "re_sub w ''kitchen_old'' '''' ''light.kitchen_old'' = Inr ''light.''"
  by (simp add: re_sub_def plain_kitchen_old)

text \<open>
  Claim C3, as amended. When the replace pattern is a non-empty string, every row of the
  plan built from the listed records keeps the record's display name and identifier, and
  its new identifier is what \<open>re.sub\<close> makes of the identifier with the search pattern and
  the replace pattern; the plan is built whenever no substitution raises. When the replace
  pattern is absent or the empty string, every new identifier is empty. The identifier
  \<open>light.kitchen_old\<close> with the patterns \<open>kitchen_old\<close> and \<open>kitchen_new\<close> gives
  \<open>light.kitchen_new\<close>.

  The claim as stated fails for the empty replace pattern, which the test
  \<open>if replace_regex:\<close> takes for an absent one: the new identifier is left empty, where
  the substitution would delete the matches.
\<close>

theorem rename_data_of_substitutes:
  "(r \<noteq> [] \<and> rename_data_of w (Some pattern) (Some r) entity_data = Inr rename_data \<longrightarrow>
      length rename_data = length entity_data \<and>
      (\<forall>k<length entity_data.
         fst (rename_data ! k) = fst (entity_data ! k) \<and>
         fst (snd (rename_data ! k)) = snd (entity_data ! k) \<and>
         re_sub w pattern r (snd (entity_data ! k)) = Inr (snd (snd (rename_data ! k))))) \<and>
   (r \<noteq> [] \<and> (\<forall>x\<in>set entity_data. \<exists>new_ident. re_sub w pattern r (snd x) = Inr new_ident) \<longrightarrow>
      (\<exists>rename_data. rename_data_of w (Some pattern) (Some r) entity_data = Inr rename_data)) \<and>
   (replace = None \<or> replace = Some [] \<longrightarrow>
      rename_data_of w search replace entity_data =
        Inr (map (\<lambda>(name, ident). (name, ident, [])) entity_data)) \<and>
   re_sub w ''kitchen_old'' ''kitchen_new'' ''light.kitchen_old'' = Inr ''light.kitchen_new'' \<and>
   rename_data_of w (Some ''kitchen_old'') (Some ''kitchen_new'') [(name, ''light.kitchen_old'')] =
     Inr [(name, ''light.kitchen_old'', ''light.kitchen_new'')]"
proof (intro conjI impI)
  assume a: "r \<noteq> [] \<and> rename_data_of w (Some pattern) (Some r) entity_data = Inr rename_data"
  then have "substituted w (Some pattern) r entity_data = Inr rename_data"
    by (auto simp: rename_data_of_def truthy_def)
  from substituted_rows[OF this]
  show "length rename_data = length entity_data"
    and "\<forall>k<length entity_data.
         fst (rename_data ! k) = fst (entity_data ! k) \<and>
         fst (snd (rename_data ! k)) = snd (entity_data ! k) \<and>
         re_sub w pattern r (snd (entity_data ! k)) = Inr (snd (snd (rename_data ! k)))"
    by (simp_all add: list_all2_conv_all_nth)
next
  assume "r \<noteq> [] \<and> (\<forall>x\<in>set entity_data. \<exists>new_ident. re_sub w pattern r (snd x) = Inr new_ident)"
  then show "\<exists>rename_data. rename_data_of w (Some pattern) (Some r) entity_data = Inr rename_data"
    using substituted_total[of entity_data w pattern r]
    by (simp add: rename_data_of_def truthy_def)
next
  assume "replace = None \<or> replace = Some []"
  then show "rename_data_of w search replace entity_data =
        Inr (map (\<lambda>(name, ident). (name, ident, [])) entity_data)"
    by (auto simp: rename_data_of_def truthy_def)
next
  show "re_sub w ''kitchen_old'' ''kitchen_new'' ''light.kitchen_old'' = Inr ''light.kitchen_new''"
    by (rule re_sub_kitchen)
next
  show "rename_data_of w (Some ''kitchen_old'') (Some ''kitchen_new'') [(name, ''light.kitchen_old'')] =
     Inr [(name, ''light.kitchen_old'', ''light.kitchen_new'')]"
    by (simp add: rename_data_of_def truthy_def re_sub_kitchen)
qed

theorem rename_data_of_substitutes_witness:
  "rename_data_of sample_world (Some ''old'') (Some ''new'')
      [(''B'', ''light.b_old''), (''Kitchen'', ''light.kitchen_old'')] =
     Inr [(''B'', ''light.b_old'', ''light.b_new''), (''Kitchen'', ''light.kitchen_old'', ''light.kitchen_new'')] \<and>
   re_sub sample_world ''old'' ''new'' ''light.kitchen_old'' = Inr ''light.kitchen_new'' \<and>
   rename_data_of sample_world (Some ''old'') None [(''B'', ''light.b_old'')] =
     Inr [(''B'', ''light.b_old'', '''')]"
proof -
  let ?ed = "[(''B'', ''light.b_old''), (''Kitchen'', ''light.kitchen_old'')]"
  let ?rd = "[(''B'', ''light.b_old'', ''light.b_new''), (''Kitchen'', ''light.kitchen_old'', ''light.kitchen_new'')]"
  have pl: "plain ''old''" by (simp add: plain_def special_characters_def)
  have run: "''new'' \<noteq> [] \<and> rename_data_of sample_world (Some ''old'') (Some ''new'') ?ed = Inr ?rd"
    by (simp add: rename_data_of_def truthy_def re_sub_def pl)
  note inst = rename_data_of_substitutes[of "''new''" sample_world "''old''" ?ed ?rd None
      "Some ''old''" "''B''"]
  from inst run have "\<forall>k<length ?ed.
         fst (?rd ! k) = fst (?ed ! k) \<and>
         fst (snd (?rd ! k)) = snd (?ed ! k) \<and>
         re_sub sample_world ''old'' ''new'' (snd (?ed ! k)) = Inr (snd (snd (?rd ! k)))"
    by blast
  from this[rule_format, of 1] have a: "re_sub sample_world ''old'' ''new'' ''light.kitchen_old'' = Inr ''light.kitchen_new''"
    by simp
  from inst have "rename_data_of sample_world (Some ''old'') None [(''B'', ''light.b_old'')] =
     Inr [(''B'', ''light.b_old'', '''')]"
    by (simp add: rename_data_of_def truthy_def)
  with run a show ?thesis by simp
qed

theorem empty_replace_pattern_is_not_substituted:
  "rename_data_of sample_world (Some ''kitchen_old'') (Some '''')
      [(''Kitchen'', ''light.kitchen_old'')] =
     Inr [(''Kitchen'', ''light.kitchen_old'', '''')] \<and>
   re_sub sample_world ''kitchen_old'' '''' ''light.kitchen_old'' = Inr ''light.''"
  by (simp add: rename_data_of_def truthy_def re_sub_kitchen_empty)

section \<open>Properties of the applier\<close>

lemma recv_Cons: "recv (f # frames) = ([WsRecv f], Inr (f, frames))"
  by (simp add: recv_def run_simps ret_def)

lemma recv_Nil: "recv [] = raise WebSocketException"
  by (simp add: recv_def)

lemma update_loop_trace:
  assumes "length replies = length rd"
    and "\<forall>f\<in>set replies. \<exists>res. json_loads_result w f = Inr res"
  shows "update_loop w i rd (replies @ extra) =
    (concat (map (update_events w) (enumerate i (zip rd replies))), Inr ())"
  using assms
proof (induction rd arbitrary: i replies)
  case Nil
  then show ?case by (simp add: ret_def)
next
  case (Cons r rd)
  then obtain f fs where replies: "replies = f # fs" by (cases replies) auto
  with Cons.prems obtain res where res: "json_loads_result w f = Inr res" by auto
  from Cons.prems replies have "length fs = length rd"
    and "\<forall>f\<in>set fs. \<exists>res. json_loads_result w f = Inr res" by auto
  from Cons.IH[OF this, of "Suc i"] show ?case
    by (simp add: replies recv_Cons run_simps res update_events_def report_def)
qed

lemma rename_entities_trace:
  assumes "ws_connects w"
    and "ws_frames w = greeting # auth_result # replies @ extra"
    and "length replies = length rd"
    and "\<forall>f\<in>set replies. \<exists>res. json_loads_result w f = Inr res"
  shows "rename_entities w rd =
    ([WsConnect, WsRecv greeting, Print (Text (''<<< '' @ greeting)), WsSend Auth,
      Print (Sent Auth), WsRecv auth_result, Print (Text (''<<< '' @ auth_result))]
     @ concat (map (update_events w) (enumerate 1 (zip rd replies))) @ [WsClose], Inr ())"
  using update_loop_trace[OF assms(3,4), of 1 extra]
  by (simp add: rename_entities_def session_def assms(1,2) recv_Cons run_simps)

lemma filter_update_events:
  "filter control_channel (concat (map (update_events w) xs)) =
   concat (map (\<lambda>(index, r, f). [WsSend (update_msg index r), WsRecv f]) xs)"
  by (induction xs) (auto simp: update_events_def)

lemma sent_frames_append: "sent_frames (es @ es') = sent_frames es @ sent_frames es'"
  by (induction es rule: sent_frames.induct) simp_all

lemma sent_frames_update_events:
  "length replies = length rd \<Longrightarrow>
   sent_frames (concat (map (update_events w) (enumerate i (zip rd replies)))) =
   map (\<lambda>(index, r). update_msg index r) (enumerate i rd)"
proof (induction rd arbitrary: i replies)
  case Nil
  then show ?case by simp
next
  case (Cons r rd)
  then obtain f fs where "replies = f # fs" by (cases replies) auto
  with Cons show ?case by (simp add: update_events_def sent_frames_append)
qed

text \<open>
  Claim C4. Let the connection open and the hub send its greeting, its answer to the
  authentication and then one response frame for each row of the plan, each of which
  decodes, whether it reports success or a rejection. Then \<open>rename_entities\<close> ends
  without an exception; after the authentication frame it sends one update request for
  each row, in the order of the plan, numbered from 1; on the control channel every
  request is followed by the reading of one response frame before the next request is
  sent, and the connection is closed at the end. The request of a row carries its
  number and current identifier, the new identifier only when that is not empty, and
  the name only when that is not empty.
\<close>

theorem rename_entities_one_frame_per_row:
  assumes "ws_connects w"
    and "ws_frames w = greeting # auth_result # replies @ extra"
    and "length replies = length rename_data"
    and "\<forall>f\<in>set replies. \<exists>res. json_loads_result w f = Inr res"
  shows "snd (rename_entities w rename_data) = Inr () \<and>
    sent_frames (fst (rename_entities w rename_data)) =
      Auth # map (\<lambda>(index, r). update_msg index r) (enumerate 1 rename_data) \<and>
    filter control_channel (fst (rename_entities w rename_data)) =
      [WsConnect, WsRecv greeting, WsSend Auth, WsRecv auth_result]
      @ concat (map (\<lambda>(index, r, f). [WsSend (update_msg index r), WsRecv f])
                 (enumerate 1 (zip rename_data replies)))
      @ [WsClose] \<and>
    (\<forall>index name ident new_ident.
       update_msg index (name, ident, new_ident) =
         Update index ident (if new_ident = [] then None else Some new_ident)
           (if name = [] then None else Some name))"
proof (intro conjI)
  note t = rename_entities_trace[OF assms]
  show "snd (rename_entities w rename_data) = Inr ()" by (simp add: t)
  show "sent_frames (fst (rename_entities w rename_data)) =
      Auth # map (\<lambda>(index, r). update_msg index r) (enumerate 1 rename_data)"
    by (simp add: t sent_frames_append sent_frames_update_events[OF assms(3)])
  show "filter control_channel (fst (rename_entities w rename_data)) =
      [WsConnect, WsRecv greeting, WsSend Auth, WsRecv auth_result]
      @ concat (map (\<lambda>(index, r, f). [WsSend (update_msg index r), WsRecv f])
                 (enumerate 1 (zip rename_data replies)))
      @ [WsClose]"
    by (simp add: t filter_update_events)
  show "\<forall>index name ident new_ident.
       update_msg index (name, ident, new_ident) =
         Update index ident (if new_ident = [] then None else Some new_ident)
           (if name = [] then None else Some name)"
    by (simp add: update_msg_def)
qed

theorem rename_entities_one_frame_per_row_witness:
  "ws_connects sample_world \<and>
   ws_frames sample_world = ''auth_required'' # ''auth_ok'' # [''no'', ''yes''] @ [] \<and>
   json_loads_result sample_world ''no'' = Inr \<lparr>success = False, error_message = Some ''not found''\<rparr> \<and>
   sent_frames (fst (rename_entities sample_world
      [('''', ''light.a'', ''light.b''), (''C'', ''switch.c'', '''')])) =
     [Auth, Update 1 ''light.a'' (Some ''light.b'') None, Update 2 ''switch.c'' None (Some ''C'')] \<and>
   filter control_channel (fst (rename_entities sample_world
      [('''', ''light.a'', ''light.b''), (''C'', ''switch.c'', '''')])) =
     [WsConnect, WsRecv ''auth_required'', WsSend Auth, WsRecv ''auth_ok'',
      WsSend (Update 1 ''light.a'' (Some ''light.b'') None), WsRecv ''no'',
      WsSend (Update 2 ''switch.c'' None (Some ''C'')), WsRecv ''yes'', WsClose]"
proof -
  let ?rd = "[('''', ''light.a'', ''light.b''), (''C'', ''switch.c'', '''')]"
  have h1: "ws_connects sample_world" by (simp add: sample_world_def)
  have h2: "ws_frames sample_world = ''auth_required'' # ''auth_ok'' # [''no'', ''yes''] @ []"
    by (simp add: sample_world_def)
  have h3: "length [''no'', ''yes''] = length ?rd" by simp
  have h4: "\<forall>f\<in>set [''no'', ''yes'']. \<exists>res. json_loads_result sample_world f = Inr res"
    by (simp add: sample_world_def)
  have h5: "json_loads_result sample_world ''no'' = Inr \<lparr>success = False, error_message = Some ''not found''\<rparr>"
    by (simp add: sample_world_def)
  from rename_entities_one_frame_per_row[OF h1 h2 h3 h4] h1 h2 h5
  show ?thesis by (simp add: update_msg_def enumerate_eq_zip upt_rec)
qed

section \<open>Runs of \<open>process_entities\<close> and \<open>main\<close>\<close>

lemma strings_of_cells_of: "strings_of (map cells_of rd) = Inr rd"
  by (induction rd) (auto simp: cells_of_def)

lemma align_rows:
  "align_strings (map row_of rd) = Inr (aligned_upto 3 (map row_of rd))"
proof (cases rd)
  case Nil
  then show ?thesis by (simp add: align_strings_def aligned_upto_def)
next
  case (Cons r rs)
  have len: "\<forall>row\<in>set (map row_of rd). length row = 3"
    by (auto simp: row_of_def)
  have "length (map row_of rd ! 0) = 3" using Cons by (simp add: row_of_def split: prod.splits)
  with align_strings_closed[of "map row_of rd"] len show ?thesis by simp
qed




lemma write_to_csv_ok:
  "can_write w filename \<Longrightarrow>
   write_to_csv w t filename =
     ([FileWrite filename (writerows t), Print (Text (''(Table written to '' @ filename @ '')''))],
      Inr ())"
  by (simp add: write_to_csv_def run_simps emit_def)

lemma confirm_no:
  "stdin_line w = Some answer \<Longrightarrow> lower answer \<notin> {''y'', ''yes''} \<Longrightarrow>
   confirm_and_rename w rd = ([Input prompt, Print (Text ''Renaming process aborted.'')], Inr ())"
  by (simp add: confirm_and_rename_def run_simps emit_def)

lemma confirm_yes:
  "stdin_line w = Some answer \<Longrightarrow> lower answer \<in> {''y'', ''yes''} \<Longrightarrow>
   confirm_and_rename w rd = (Input prompt # fst (rename_entities w rd), snd (rename_entities w rd))"
  by (auto simp add: confirm_and_rename_def run_simps emit_def)

lemma confirm_eof:
  "stdin_line w = None \<Longrightarrow> confirm_and_rename w rd = ([Input prompt], Inl EOFError)"
  by (simp add: confirm_and_rename_def run_simps raise_def)

text \<open>The events of a run all satisfy \<open>P\<close>.\<close>

lemma list_all_bind:
  "list_all P (fst (bind m f)) \<longleftrightarrow>
   list_all P (fst m) \<and> (\<forall>x. snd m = Inr x \<longrightarrow> list_all P (fst (f x)))"
  by (cases m) (auto simp: bind_def split: sum.splits prod.splits)

lemma list_all_recv:
  "list_all P (fst (recv frames)) \<longleftrightarrow> (frames \<noteq> [] \<longrightarrow> P (WsRecv (hd frames)))"
  by (cases frames) (simp_all add: recv_def raise_def run_simps ret_def)

lemma fst_run [simp]:
  "fst (emit ev) = [ev]" "fst (lift r) = []" "fst (ret x) = []" "fst (raise e) = []"
  by (simp_all add: emit_def lift_def ret_def raise_def)

lemma list_all_update_loop:
  assumes "\<And>f. P (WsRecv f)" "\<And>m. P (WsSend m)" "\<And>p. P (Print p)"
  shows "list_all P (fst (update_loop w i rd frames))"
proof (induction rd arbitrary: i frames)
  case Nil
  then show ?case by simp
next
  case (Cons r rd)
  show ?case
    by (simp add: list_all_bind list_all_recv assms Cons.IH split: prod.splits)
qed

lemma list_all_rename_entities:
  assumes "\<And>f. P (WsRecv f)" "\<And>m. P (WsSend m)" "\<And>p. P (Print p)" "P WsConnect" "P WsClose"
  shows "list_all P (fst (rename_entities w rd))"
proof -
  have "list_all P (fst (session w rd))"
    unfolding session_def
    by (simp add: list_all_bind list_all_recv assms list_all_update_loop split: prod.splits)
  then show ?thesis
    unfolding rename_entities_def
    by (cases "session w rd") (simp add: list_all_bind assms)
qed

lemma list_all_list_entities:
  assumes "P HttpGet" "\<And>p. P (Print p)"
  shows "list_all P (fst (list_entities w regex))"
  unfolding list_entities_def
  by (simp add: list_all_bind assms Let_def split: option.splits)

lemma list_all_build:
  assumes "\<And>f. P (FileRead f)" "\<And>p. P (Print p)"
  shows "list_all P (fst (build_rename_data w entity_data search replace inp))"
proof -
  have "list_all P (fst (read_rename_data w f))" for f
    unfolding read_rename_data_def
    by (simp add: list_all_bind assms split: option.splits prod.splits)
  then show ?thesis
    unfolding build_rename_data_def
    by (simp add: list_all_bind assms)
qed

lemma list_all_write_to_csv:
  assumes "\<And>f c. P (FileWrite f c)" "\<And>p. P (Print p)"
  shows "list_all P (fst (write_to_csv w t filename))"
  unfolding write_to_csv_def
  by (simp add: list_all_bind assms)

lemma process_entities_built:
  assumes "build_rename_data w entity_data search replace inp = (es0, Inr (Some cells))"
    and "strings_of cells = Inr rd"
  shows "process_entities w entity_data search replace out inp =
     bind (es0 @ [Print (Table (header # aligned_upto 3 (map row_of rd)))], Inr ()) (\<lambda>_.
     bind (if truthy out then write_to_csv w (header # map row_of rd) (the out) else ret ()) (\<lambda>_.
       if \<not> truthy replace \<and> \<not> truthy inp then ret () else confirm_and_rename w rd))"
  by (simp add: process_entities_def present_def assms run_simps align_rows)

lemma build_from_entities:
  "rename_data_of w search replace entity_data = Inr rd \<Longrightarrow>
   build_rename_data w entity_data search replace None = ([], Inr (Some (map cells_of rd)))"
  by (simp add: build_rename_data_def truthy_def run_simps ret_def)

lemma no_prompt_rename_entities:
  "list_all (\<lambda>ev. \<not> is_prompt ev \<and> \<not> is_write ev) (fst (rename_entities w rd))"
  by (rule list_all_rename_entities) simp_all

lemma quiet_build:
  "list_all (\<lambda>ev. \<not> is_prompt ev \<and> \<not> control_channel ev \<and> \<not> is_write ev)
     (fst (build_rename_data w entity_data search replace inp))"
  by (rule list_all_build) simp_all

lemma lower_examples: "lower ''YES'' = ''yes''" "lower ''Y'' = ''y''" "lower ''yEs'' = ''yes''"
  by code_simp+

lemma declined_no_control_channel:
  assumes "\<forall>answer. stdin_line w = Some answer \<longrightarrow> lower answer \<notin> {''y'', ''yes''}"
  shows "list_all (\<lambda>ev. \<not> control_channel ev) (fst (confirm_and_rename w rd))"
proof (cases "stdin_line w")
  case None
  then show ?thesis by (simp add: confirm_eof)
next
  case (Some answer)
  with assms have "lower answer \<notin> {''y'', ''yes''}" by simp
  from confirm_no[OF Some this] show ?thesis by simp
qed

lemma main_declined_no_control_channel:
  assumes "\<forall>answer. stdin_line w = Some answer \<longrightarrow> lower answer \<notin> {''y'', ''yes''}"
  shows "list_all (\<lambda>ev. \<not> control_channel ev) (fst (main w a))"
proof -
  have p: "list_all (\<lambda>ev. \<not> control_channel ev) (fst (present w cells replace out inp))"
    for cells replace out inp
    unfolding present_def
    by (simp add: list_all_bind list_all_write_to_csv declined_no_control_channel[OF assms])
  have b: "list_all (\<lambda>ev. \<not> control_channel ev)
      (fst (build_rename_data w entity_data search replace inp))"
    for entity_data search replace inp
    by (rule list_all_build) simp_all
  have pe: "list_all (\<lambda>ev. \<not> control_channel ev)
      (fst (process_entities w entity_data search replace out inp))"
    for entity_data search replace out inp
    unfolding process_entities_def
    by (simp add: list_all_bind b p split: option.splits)
  have le: "list_all (\<lambda>ev. \<not> control_channel ev) (fst (list_entities w regex))" for regex
    by (rule list_all_list_entities) simp_all
  show ?thesis
    unfolding main_def
    by (simp add: list_all_bind pe le)
qed

text \<open>
  Claim C1, as amended. Let \<open>process_entities\<close> have built its plan \<open>rename_data\<close>,
  let the replace pattern be a non-empty string or an input file be used, let the
  export, if one is asked for, be writable, and let \<open>answer\<close> be the line on standard
  input. Then the run prompts once, and neither prompts nor touches the control channel
  before that. When the answer in lower case is neither \<open>y\<close> nor \<open>yes\<close>, all that
  follows the prompt is the line \<open>Renaming process aborted.\<close>, and the function
  returns; otherwise what follows is the run of \<open>rename_entities\<close> on the plan. With an
  answer that is not a yes, no run of \<open>main\<close>, whatever its arguments, has an event of
  the control channel. The test ignores the case of the letters.

  The claim as stated fails for the empty replace pattern: the gate
  \<open>if not replace_regex and not input_filename\<close> takes it for an absent one, and the run
  ends after the table without reading a line.
\<close>

theorem declining_the_prompt_sends_nothing:
  assumes "build_rename_data w entity_data search replace inp = (es0, Inr (Some cells))"
    and "strings_of cells = Inr rename_data"
    and "truthy replace \<or> truthy inp"
    and "truthy out \<longrightarrow> can_write w (the out)"
    and "stdin_line w = Some answer"
  shows "(\<exists>before after.
       fst (process_entities w entity_data search replace out inp) = before @ Input prompt # after \<and>
       list_all (\<lambda>ev. \<not> is_prompt ev \<and> \<not> control_channel ev) before \<and>
       list_all (\<lambda>ev. \<not> is_prompt ev) after \<and>
       (lower answer \<notin> {''y'', ''yes''} \<longrightarrow>
          after = [Print (Text ''Renaming process aborted.'')] \<and>
          snd (process_entities w entity_data search replace out inp) = Inr ()) \<and>
       (lower answer \<in> {''y'', ''yes''} \<longrightarrow> after = fst (rename_entities w rename_data))) \<and>
    (lower answer \<notin> {''y'', ''yes''} \<longrightarrow>
       list_all (\<lambda>ev. \<not> control_channel ev) (fst (main w a))) \<and>
    lower ''Y'' = ''y'' \<and> lower ''YES'' = ''yes'' \<and> lower ''yEs'' = ''yes''"
proof (intro conjI)
  let ?table = "Print (Table (header # aligned_upto 3 (map row_of rename_data)))"
  let ?export = "if truthy out then
      [FileWrite (the out) (writerows (header # map row_of rename_data)),
       Print (Text (''(Table written to '' @ the out @ '')''))] else []"
  let ?before = "es0 @ ?table # ?export"
  note pe = process_entities_built[OF assms(1,2), of out]
  have quiet0: "list_all (\<lambda>ev. \<not> is_prompt ev \<and> \<not> control_channel ev \<and> \<not> is_write ev) es0"
    using quiet_build[of w entity_data search replace inp] by (simp add: assms(1))
  have quiet: "list_all (\<lambda>ev. \<not> is_prompt ev \<and> \<not> control_channel ev) ?before"
    using quiet0 by (auto simp: list_all_iff)
  have run: "process_entities w entity_data search replace out inp =
      (?before @ fst (confirm_and_rename w rename_data), snd (confirm_and_rename w rename_data))"
    using assms(3,4) by (auto simp: pe run_simps write_to_csv_ok)
  show "\<exists>before after.
       fst (process_entities w entity_data search replace out inp) = before @ Input prompt # after \<and>
       list_all (\<lambda>ev. \<not> is_prompt ev \<and> \<not> control_channel ev) before \<and>
       list_all (\<lambda>ev. \<not> is_prompt ev) after \<and>
       (lower answer \<notin> {''y'', ''yes''} \<longrightarrow>
          after = [Print (Text ''Renaming process aborted.'')] \<and>
          snd (process_entities w entity_data search replace out inp) = Inr ()) \<and>
       (lower answer \<in> {''y'', ''yes''} \<longrightarrow> after = fst (rename_entities w rename_data))"
  proof (cases "lower answer \<in> {''y'', ''yes''}")
    case True
    note c = confirm_yes[OF assms(5) True, of rename_data]
    have "list_all (\<lambda>ev. \<not> is_prompt ev) (fst (rename_entities w rename_data))"
      using no_prompt_rename_entities[of w rename_data] by (auto simp: list_all_iff)
    with True quiet show ?thesis
      by (intro exI[of _ ?before] exI[of _ "fst (rename_entities w rename_data)"])
         (simp add: run c)
  next
    case False
    note c = confirm_no[OF assms(5) False, of rename_data]
    from False quiet show ?thesis
      by (intro exI[of _ ?before] exI[of _ "[Print (Text ''Renaming process aborted.'')]"])
         (simp add: run c)
  qed
next
  show "lower answer \<notin> {''y'', ''yes''} \<longrightarrow>
       list_all (\<lambda>ev. \<not> control_channel ev) (fst (main w a))"
    using main_declined_no_control_channel[of w a] assms(5) by simp
next
  show "lower ''Y'' = ''y''" "lower ''YES'' = ''yes''" "lower ''yEs'' = ''yes''"
    by (rule lower_examples)+
qed


theorem declining_the_prompt_sends_nothing_witness:
  "build_rename_data (sample_world\<lparr>stdin_line := Some ''N''\<rparr>) [] None None (Some ''plan.csv'') =
     ([FileRead ''plan.csv''],
      Inr (Some [(Some [], Some ''light.a'', Some ''light.b''), (Some [], Some ''switch.c'', Some [])])) \<and>
   (\<exists>before.
      fst (process_entities (sample_world\<lparr>stdin_line := Some ''N''\<rparr>) [] None None None
             (Some ''plan.csv'')) =
        before @ [Input prompt, Print (Text ''Renaming process aborted.'')] \<and>
      list_all (\<lambda>ev. \<not> is_prompt ev \<and> \<not> control_channel ev) before)"
proof -
  let ?w = "sample_world\<lparr>stdin_line := Some ''N''\<rparr>"
  let ?cells = "[(Some [], Some ''light.a'', Some ''light.b''), (Some [], Some ''switch.c'', Some [])]"
  have h1: "build_rename_data ?w [] None None (Some ''plan.csv'') =
     ([FileRead ''plan.csv''], Inr (Some ?cells))"
    by code_simp
  have h2: "strings_of ?cells = Inr [([], ''light.a'', ''light.b''), ([], ''switch.c'', [])]"
    by simp
  have h3: "truthy None \<or> truthy (Some ''plan.csv'')" by (simp add: truthy_def)
  have h4: "truthy None \<longrightarrow> can_write ?w (the None)" by (simp add: truthy_def)
  have h5: "stdin_line ?w = Some ''N''" by simp
  have no: "lower ''N'' \<notin> {''y'', ''yes''}" by code_simp
  from declining_the_prompt_sends_nothing[OF h1 h2 h3 h4 h5] no
  obtain before after where
    "fst (process_entities ?w [] None None None (Some ''plan.csv'')) = before @ Input prompt # after"
    "list_all (\<lambda>ev. \<not> is_prompt ev \<and> \<not> control_channel ev) before"
    "after = [Print (Text ''Renaming process aborted.'')]"
    by blast
  with h1 show ?thesis by simp
qed

theorem empty_replace_pattern_is_not_prompted:
  "main sample_world \<lparr>input_file = None, search_regex = Some ''kitchen_old'',
                      replace_regex = Some [], output_file = None\<rparr> =
     ([HttpGet, Print (Table [header, [''Kitchen'', ''light.kitchen_old'', []]])], Inr ())"
  by code_simp









lemma preview_present:
  assumes "\<not> truthy replace" "\<not> truthy inp"
  shows "list_all preview_event (fst (present w cells replace out inp))"
  unfolding present_def using assms
  by (simp add: list_all_bind list_all_write_to_csv)

lemma preview_build:
  assumes "\<not> truthy inp"
  shows "fst (build_rename_data w entity_data search replace inp) = []"
  using assms by (cases "rename_data_of w search replace entity_data")
    (simp_all add: build_rename_data_def run_simps)

lemma preview_process_entities:
  assumes "\<not> truthy replace" "\<not> truthy inp"
  shows "list_all preview_event (fst (process_entities w entity_data search replace out inp))"
  unfolding process_entities_def
  by (simp add: list_all_bind preview_build[OF assms(2)] preview_present[OF assms]
      split: option.splits)

text \<open>
  Claim C2. In a run of \<open>main\<close> without a replace pattern and without an input file
  (absent, or the empty string) every event is the listing request, something printed or
  the export: the run never prompts and has no event of the control channel. When a
  search pattern is given, the listing succeeds with at least one match and the export,
  if asked for, is writable, the run is the listing request, the aligned table of the
  matches with empty new identifiers and, with an output file, the export and its note;
  then \<open>main\<close> returns.
\<close>

theorem search_without_replace_is_preview_only:
  assumes "\<not> truthy (replace_regex a)" and "\<not> truthy (input_file a)"
  shows "list_all preview_event (fst (main w a)) \<and>
    list_all (\<lambda>ev. \<not> is_prompt ev \<and> \<not> control_channel ev) (fst (main w a)) \<and>
    (truthy (search_regex a) \<and> list_entities w (search_regex a) = ([HttpGet], Inr entity_data) \<and>
     entity_data \<noteq> [] \<and> (truthy (output_file a) \<longrightarrow> can_write w (the (output_file a))) \<longrightarrow>
       (\<exists>aligned.
          align_strings (map (\<lambda>(name, ident). [name, ident, []]) entity_data) = Inr aligned \<and>
          main w a =
            ([HttpGet, Print (Table (header # aligned))]
             @ (if truthy (output_file a)
                then [FileWrite (the (output_file a))
                        (writerows (header # map (\<lambda>(name, ident). [name, ident, []]) entity_data)),
                      Print (Text (''(Table written to '' @ the (output_file a) @ '')''))]
                else []),
             Inr ())))"
proof (intro conjI impI)
  have le: "list_all preview_event (fst (list_entities w regex))" for regex
    by (rule list_all_list_entities) simp_all
  have none: "\<not> truthy None" by (simp add: truthy_def)
  show p: "list_all preview_event (fst (main w a))"
    unfolding main_def using assms
    by (simp add: list_all_bind le preview_process_entities[OF assms(1) none]
        preview_process_entities[OF none assms(2)])
  have "preview_event ev \<Longrightarrow> \<not> is_prompt ev \<and> \<not> control_channel ev" for ev
    by (cases ev) simp_all
  with p show "list_all (\<lambda>ev. \<not> is_prompt ev \<and> \<not> control_channel ev) (fst (main w a))"
    by (auto simp: list_all_iff)
next
  assume h: "truthy (search_regex a) \<and> list_entities w (search_regex a) = ([HttpGet], Inr entity_data) \<and>
     entity_data \<noteq> [] \<and> (truthy (output_file a) \<longrightarrow> can_write w (the (output_file a)))"
  let ?rd = "map (\<lambda>(name, ident). (name, ident, [])) entity_data"
  let ?rows = "map (\<lambda>(name, ident). [name, ident, []]) entity_data"
  have rows: "map row_of ?rd = ?rows"
    by (simp add: row_of_def split_def)
  have rows': "map (row_of \<circ> (\<lambda>(name, ident). (name, ident, []))) entity_data = ?rows"
    by (simp add: row_of_def split_def comp_def)
  have rd: "rename_data_of w (search_regex a) (replace_regex a) entity_data = Inr ?rd"
    using assms(1) by (simp add: rename_data_of_def)
  have none: "\<not> truthy None" by (simp add: truthy_def)
  note b = build_from_entities[OF rd]
  note pe = process_entities_built[OF b strings_of_cells_of, of "output_file a"]
  have al: "align_strings ?rows = Inr (aligned_upto 3 ?rows)"
    using align_rows[of ?rd] by (simp only: rows)
  have "main w a =
            ([HttpGet, Print (Table (header # aligned_upto 3 ?rows))]
             @ (if truthy (output_file a)
                then [FileWrite (the (output_file a)) (writerows (header # ?rows)),
                      Print (Text (''(Table written to '' @ the (output_file a) @ '')''))]
                else []),
             Inr ())"
    using h assms
    by (simp add: main_def run_simps pe rows' none write_to_csv_ok ret_def)
  with al show "\<exists>aligned.
          align_strings ?rows = Inr aligned \<and>
          main w a =
            ([HttpGet, Print (Table (header # aligned))]
             @ (if truthy (output_file a)
                then [FileWrite (the (output_file a)) (writerows (header # ?rows)),
                      Print (Text (''(Table written to '' @ the (output_file a) @ '')''))]
                else []),
             Inr ())"
    by blast
qed

theorem search_without_replace_is_preview_only_witness:
  "\<not> truthy (replace_regex \<lparr>input_file = None, search_regex = Some ''switch'', replace_regex = None,
                            output_file = None\<rparr>) \<and>
   main sample_world \<lparr>input_file = None, search_regex = Some ''switch'', replace_regex = None,
                      output_file = None\<rparr> =
     ([HttpGet, Print (Table [header, ['''', ''switch.a'', '''']])], Inr ())"
proof -
  let ?a = "\<lparr>input_file = None, search_regex = Some ''switch'', replace_regex = None,
             output_file = None\<rparr>"
  have h1: "\<not> truthy (replace_regex ?a)" by (simp add: truthy_def)
  have h2: "\<not> truthy (input_file ?a)" by (simp add: truthy_def)
  have le: "truthy (search_regex ?a) \<and>
      list_entities sample_world (search_regex ?a) = ([HttpGet], Inr [('''', ''switch.a'')]) \<and>
      [('''', ''switch.a'')] \<noteq> [] \<and>
      (truthy (output_file ?a) \<longrightarrow> can_write sample_world (the (output_file ?a)))"
    by code_simp
  have al: "align_strings (map (\<lambda>(name, ident). [name, ident, []]) [('''', ''switch.a'')]) =
      Inr [['''', ''switch.a'', '''']]"
    by code_simp
  from search_without_replace_is_preview_only[OF h1 h2, of sample_world "[('''', ''switch.a'')]"] le
  obtain aligned where
    "align_strings (map (\<lambda>(name, ident). [name, ident, []]) [('''', ''switch.a'')]) = Inr aligned"
    "main sample_world ?a =
       ([HttpGet, Print (Table (header # aligned))]
        @ (if truthy (output_file ?a)
           then [FileWrite (the (output_file ?a))
                   (writerows (header # map (\<lambda>(name, ident). [name, ident, []]) [('''', ''switch.a'')])),
                 Print (Text (''(Table written to '' @ the (output_file ?a) @ '')''))]
           else []),
        Inr ())"
    by blast
  with al h1 show ?thesis by (simp add: truthy_def)
qed

text \<open>
  Claim C9, as amended. An option counts as given when its value is a non-empty string.
  When both \<open>--search\<close> and \<open>--input-file\<close> are given, \<open>main\<close> prints that they
  cannot be used together and returns. Otherwise, when \<open>--replace\<close> is given and
  \<open>--search\<close> is not, it prints that \<open>--replace\<close> requires \<open>--search\<close> and returns.
  When none of \<open>--search\<close>, \<open>--input-file\<close> and \<open>--replace\<close> is given, it prints
  the usage help and returns. In each case the printed line is the only event of the run:
  nothing is listed, read, written or sent.

  The claim as stated fails when \<open>--search\<close> is given the empty string together with
  an input file: the test \<open>args.search_regex and args.input_file\<close> takes the empty
  pattern for an absent one, and the plan of the file is applied.
\<close>

theorem main_rejects_bad_argument_combinations:
  "(truthy (search_regex a) \<and> truthy (input_file a) \<longrightarrow>
      main w a =
        ([Print (Text ''Error: --search and --input-file cannot be used together.'')], Inr ())) \<and>
   (truthy (replace_regex a) \<and> \<not> truthy (search_regex a) \<longrightarrow>
      main w a = ([Print (Text ''Error: --replace requires --search.'')], Inr ())) \<and>
   (\<not> truthy (replace_regex a) \<and> \<not> truthy (search_regex a) \<and> \<not> truthy (input_file a) \<longrightarrow>
      main w a = ([Print Help], Inr ())) \<and>
   (truthy x \<longleftrightarrow> (\<exists>s. x = Some s \<and> s \<noteq> []))"
  by (auto simp: main_def emit_def truthy_def split: option.splits)

theorem main_rejects_bad_argument_combinations_witness:
  "truthy (Some ''switch'') \<and> truthy (Some ''plan.csv'') \<and> \<not> truthy (Some []) \<and>
   main sample_world \<lparr>input_file = Some ''plan.csv'', search_regex = Some ''switch'',
                      replace_regex = None, output_file = None\<rparr> =
     ([Print (Text ''Error: --search and --input-file cannot be used together.'')], Inr ()) \<and>
   main sample_world \<lparr>input_file = None, search_regex = None, replace_regex = Some ''x'',
                      output_file = None\<rparr> =
     ([Print (Text ''Error: --replace requires --search.'')], Inr ()) \<and>
   main sample_world \<lparr>input_file = None, search_regex = Some [], replace_regex = None,
                      output_file = None\<rparr> =
     ([Print Help], Inr ())"
proof -
  let ?a1 = "\<lparr>input_file = Some ''plan.csv'', search_regex = Some ''switch'',
              replace_regex = None, output_file = None\<rparr>"
  let ?a2 = "\<lparr>input_file = None, search_regex = None, replace_regex = Some ''x'',
              output_file = None\<rparr>"
  let ?a3 = "\<lparr>input_file = None, search_regex = Some [], replace_regex = None,
              output_file = None\<rparr>"
  have t: "truthy (Some ''switch'')" "truthy (Some ''plan.csv'')" "truthy (Some ''x'')"
    "\<not> truthy (Some [])" "\<not> truthy None"
    by (simp_all add: truthy_def)
  from main_rejects_bad_argument_combinations[of ?a1 sample_world] t
  have 1: "main sample_world ?a1 =
     ([Print (Text ''Error: --search and --input-file cannot be used together.'')], Inr ())"
    by simp
  from main_rejects_bad_argument_combinations[of ?a2 sample_world] t
  have 2: "main sample_world ?a2 = ([Print (Text ''Error: --replace requires --search.'')], Inr ())"
    by simp
  from main_rejects_bad_argument_combinations[of ?a3 sample_world] t
  have 3: "main sample_world ?a3 = ([Print Help], Inr ())"
    by simp
  from 1 2 3 t show ?thesis by simp
qed

theorem empty_search_with_input_file_is_not_rejected:
  "sent_frames (fst (main sample_world
      \<lparr>input_file = Some ''plan.csv'', search_regex = Some [], replace_regex = None,
       output_file = None\<rparr>)) =
     [Auth, Update 1 ''light.a'' (Some ''light.b'') None, Update 2 ''switch.c'' None None] \<and>
   Print (Text ''Error: --search and --input-file cannot be used together.'') \<notin>
     set (fst (main sample_world
       \<lparr>input_file = Some ''plan.csv'', search_regex = Some [], replace_regex = None,
        output_file = None\<rparr>))"
  by code_simp

section \<open>Export and re-import\<close>

subsection \<open>Reading the line terminators of the writer\<close>

lemma un_not_CR: "c \<noteq> CR \<Longrightarrow> universal_newlines (c # s) = c # universal_newlines s"
  by (cases s) simp_all

lemma un_append: "CR \<notin> set a \<Longrightarrow> universal_newlines (a @ s) = a @ universal_newlines s"
proof (induction a)
  case Nil
  then show ?case by simp
next
  case (Cons c a)
  then have "c \<noteq> CR" by auto
  from un_not_CR[OF this] Cons show ?case by simp
qed

lemma un_CRLF: "universal_newlines (CR # LF # s) = LF # universal_newlines s"
  by simp

lemma CR_not_in_join:
  "\<forall>f\<in>set fs. CR \<notin> set f \<Longrightarrow> CR \<notin> set (join_fields (map write_field fs))"
proof (induction fs rule: join_fields.induct)
  case 1
  then show ?case by simp
next
  case (2 f)
  then show ?case
    by (auto simp: write_field_def quote_field_def CR_def DQ_def split: if_splits)
next
  case (3 f g fs)
  then show ?case
    by (auto simp: write_field_def quote_field_def CR_def DQ_def delimiter_def split: if_splits)
qed

lemma un_writerows:
  "\<forall>row\<in>set rows. \<forall>f\<in>set row. CR \<notin> set f \<Longrightarrow>
   universal_newlines (writerows rows) = unix_rows rows"
proof (induction rows)
  case Nil
  then show ?case by (simp add: writerows_def unix_rows_def)
next
  case (Cons row rows)
  let ?body = "if row = [[]] then [DQ, DQ] else join_fields (map write_field row)"
  have "CR \<notin> set ?body"
    using Cons.prems CR_not_in_join[of row] by (auto simp: CR_def DQ_def)
  from un_append[OF this]
  have "universal_newlines (?body @ CR # LF # writerows rows) =
      ?body @ LF # universal_newlines (writerows rows)"
    by (simp only: un_CRLF)
  moreover have "universal_newlines (writerows rows) = unix_rows rows"
    using Cons by simp
  ultimately show ?case
    by (simp add: writerows_def unix_rows_def writerow_def)
qed

subsection \<open>Lines and characters\<close>

lemma feed_append:
  "feed rd (a @ b) = (case feed rd a of Inl e \<Rightarrow> Inl e | Inr rd' \<Rightarrow> feed rd' b)"
  by (induction a arbitrary: rd) (auto split: sum.splits)

lemma process_line_feed:
  "process_line rd l = (case feed rd l of Inl e \<Rightarrow> Inl e | Inr rd' \<Rightarrow> parse_process_char rd' None)"
  by (induction l arbitrary: rd) (auto split: sum.splits)

lemma process_line_LF:
  "feed rd cur = Inr rdc \<Longrightarrow> process_line rd (cur @ [LF]) = step rdc LF"
  by (simp add: process_line_feed feed_append step_def split: sum.splits)

lemma process_line_err:
  "feed rd x = Inl e \<Longrightarrow> process_line rd (x @ y) = Inl e"
  by (simp add: process_line_feed feed_append)

lemma lines_from_first:
  "LF \<in> set s \<Longrightarrow> \<exists>l ls. lines_from x s = (x @ l) # ls"
proof (induction s arbitrary: x)
  case Nil
  then show ?case by simp
next
  case (Cons c s)
  show ?case
  proof (cases "c = LF")
    case True
    then show ?thesis by simp
  next
    case False
    with Cons.prems have "LF \<in> set s" by simp
    from Cons.IH[OF this, of "x @ [c]"] obtain l ls where
      "lines_from (x @ [c]) s = (x @ c # l) # ls" by auto
    with False show ?thesis by simp
  qed
qed

lemma read_records_run_chars:
  assumes "feed rd cur = Inr rdc" and "s = [] \<longrightarrow> cur = []" and "s \<noteq> [] \<longrightarrow> last s = LF"
  shows "read_records rd (lines_from cur s) = run_chars rdc s"
  using assms
proof (induction s arbitrary: rd cur rdc)
  case Nil
  then show ?case by simp
next
  case (Cons c s)
  have tail: "s \<noteq> [] \<longrightarrow> last s = LF" using Cons.prems(3) by auto
  show ?case
  proof (cases "c = LF")
    case True
    note pl = process_line_LF[OF Cons.prems(1)]
    show ?thesis
    proof (cases "step rdc LF")
      case (Inl e)
      then show ?thesis by (simp add: True pl)
    next
      case (Inr rd')
      have a: "read_records parse_reset (lines_from [] s) = run_chars parse_reset s"
        by (rule Cons.IH) (use tail in simp_all)
      have b: "read_records rd' (lines_from [] s) = run_chars rd' s"
        by (rule Cons.IH) (use tail in simp_all)
      from Inr a b show ?thesis by (simp add: True pl)
    qed
  next
    case False
    with Cons.prems(3) have ne: "s \<noteq> []" by auto
    with tail have lf: "LF \<in> set s" by (metis last_in_set)
    show ?thesis
    proof (cases "parse_process_char rdc (Some c)")
      case (Inl e)
      then have "feed rd (cur @ [c]) = Inl e"
        using Cons.prems(1) by (simp add: feed_append)
      from process_line_err[OF this] lines_from_first[OF lf, of "cur @ [c]"]
      have "read_records rd (lines_from (cur @ [c]) s) = ([], Some e)" by auto
      with Inl False show ?thesis by (simp add: step_def)
    next
      case (Inr rd')
      then have f: "feed rd (cur @ [c]) = Inr rd'"
        using Cons.prems(1) by (simp add: feed_append)
      have "read_records rd (lines_from (cur @ [c]) s) = run_chars rd' s"
        by (rule Cons.IH[OF f]) (use ne tail in simp_all)
      with Inr False show ?thesis by (simp add: step_def)
    qed
  qed
qed

lemma csv_reader_run_chars:
  "s = [] \<or> last s = LF \<Longrightarrow> read_records parse_reset (lines_from [] s) = run_chars parse_reset s"
  by (rule read_records_run_chars) auto

subsection \<open>The reader inverts the writer\<close>

lemmas reader_defs = parse_process_char_def start_field_def is_newline_def parse_add_char_def
  parse_save_field_def step_def LF_def CR_def DQ_def delimiter_def

lemma step_start_plain:
  "state rd = START_RECORD \<or> state rd = START_FIELD \<Longrightarrow>
   c \<noteq> delimiter \<Longrightarrow> c \<noteq> DQ \<Longrightarrow> c \<noteq> LF \<Longrightarrow> c \<noteq> CR \<Longrightarrow>
   step rd c = Inr (rd\<lparr>state := IN_FIELD, field_chars := field_chars rd @ [c]\<rparr>)"
  by (auto simp: reader_defs)

lemma step_in_field_plain:
  "state rd = IN_FIELD \<Longrightarrow> c \<noteq> delimiter \<Longrightarrow> c \<noteq> LF \<Longrightarrow> c \<noteq> CR \<Longrightarrow>
   step rd c = Inr (rd\<lparr>field_chars := field_chars rd @ [c]\<rparr>)"
  by (auto simp: reader_defs)

lemma step_delimiter:
  "state rd \<noteq> IN_QUOTED_FIELD \<Longrightarrow> state rd \<noteq> EAT_CRNL \<Longrightarrow>
   step rd delimiter =
     Inr (rd\<lparr>state := START_FIELD, saved_fields := saved_fields rd @ [field_chars rd],
              field_chars := []\<rparr>)"
  by (cases "state rd") (auto simp: reader_defs)

lemma step_LF_ends_record:
  "state rd = START_FIELD \<or> state rd = IN_FIELD \<or> state rd = QUOTE_IN_QUOTED_FIELD \<Longrightarrow>
   step rd LF =
     Inr (rd\<lparr>state := START_RECORD, saved_fields := saved_fields rd @ [field_chars rd],
              field_chars := []\<rparr>)"
  by (auto simp: reader_defs)

lemma step_LF_blank:
  "state rd = START_RECORD \<Longrightarrow> step rd LF = Inr rd"
  by (cases rd) (auto simp: reader_defs)

lemma step_open_quote:
  "state rd = START_RECORD \<or> state rd = START_FIELD \<Longrightarrow>
   step rd DQ = Inr (rd\<lparr>state := IN_QUOTED_FIELD\<rparr>)"
  by (auto simp: reader_defs)

lemma step_in_quoted:
  "state rd = IN_QUOTED_FIELD \<Longrightarrow> c \<noteq> DQ \<Longrightarrow>
   step rd c = Inr (rd\<lparr>field_chars := field_chars rd @ [c]\<rparr>)"
  by (auto simp: reader_defs)

lemma step_quote_in_quoted:
  "state rd = IN_QUOTED_FIELD \<Longrightarrow> step rd DQ = Inr (rd\<lparr>state := QUOTE_IN_QUOTED_FIELD\<rparr>)"
  by (auto simp: reader_defs)

lemma step_doubled_quote:
  "state rd = QUOTE_IN_QUOTED_FIELD \<Longrightarrow>
   step rd DQ = Inr (rd\<lparr>state := IN_QUOTED_FIELD, field_chars := field_chars rd @ [DQ]\<rparr>)"
  by (auto simp: reader_defs)

lemma run_plain:
  "state rd = IN_FIELD \<Longrightarrow> \<not> needs_quotes f \<Longrightarrow>
   run_chars rd (f @ k) = run_chars (rd\<lparr>field_chars := field_chars rd @ f\<rparr>) k"
proof (induction f arbitrary: rd)
  case Nil
  then show ?case by simp
next
  case (Cons c f)
  then have c: "c \<noteq> delimiter" "c \<noteq> LF" "c \<noteq> CR" and f: "\<not> needs_quotes f"
    by (auto simp: needs_quotes_def)
  let ?rd = "rd\<lparr>field_chars := field_chars rd @ [c]\<rparr>"
  have "state ?rd = IN_FIELD" using Cons.prems by simp
  from Cons.IH[OF this f] step_in_field_plain[OF Cons.prems(1) c] c
  show ?case by simp
qed

lemma run_quoted:
  "state rd = IN_QUOTED_FIELD \<Longrightarrow>
   run_chars rd (concat (map (\<lambda>c. if c = DQ then [DQ, DQ] else [c]) f) @ DQ # k) =
   run_chars (rd\<lparr>state := QUOTE_IN_QUOTED_FIELD, field_chars := field_chars rd @ f\<rparr>) k"
proof (induction f arbitrary: rd)
  case Nil
  have "DQ \<noteq> LF" by (simp add: DQ_def LF_def)
  with step_quote_in_quoted[OF Nil] show ?case by simp
next
  case (Cons c f)
  have dl: "DQ \<noteq> LF" by (simp add: DQ_def LF_def)
  show ?case
  proof (cases "c = DQ")
    case True
    let ?rd1 = "rd\<lparr>state := QUOTE_IN_QUOTED_FIELD\<rparr>"
    let ?rd2 = "rd\<lparr>state := IN_QUOTED_FIELD, field_chars := field_chars rd @ [DQ]\<rparr>"
    have s1: "step rd DQ = Inr ?rd1" by (rule step_quote_in_quoted[OF Cons.prems])
    have s2: "step ?rd1 DQ = Inr ?rd2" using step_doubled_quote[of ?rd1] by simp
    have "state ?rd2 = IN_QUOTED_FIELD" by simp
    from Cons.IH[OF this] s1 s2 dl True show ?thesis by simp
  next
    case False
    let ?rd = "rd\<lparr>field_chars := field_chars rd @ [c]\<rparr>"
    have st: "state ?rd = IN_QUOTED_FIELD" using Cons.prems by simp
    from Cons.IH[OF st] step_in_quoted[OF Cons.prems False] False st
    show ?thesis by simp
  qed
qed

text \<open>A written field, read from the start of a field up to the delimiter or the end of
  the line.\<close>

lemma run_field:
  assumes "state rd = START_RECORD \<or> state rd = START_FIELD" and "field_chars rd = []"
  shows "\<exists>rd'. (state rd' = IN_FIELD \<or> state rd' = QUOTE_IN_QUOTED_FIELD \<or>
                (state rd' = state rd \<and> write_field f = [])) \<and>
      field_chars rd' = f \<and> saved_fields rd' = saved_fields rd \<and>
      (\<forall>k. run_chars rd (write_field f @ k) = run_chars rd' k)"
proof (cases "needs_quotes f")
  case True
  let ?rd1 = "rd\<lparr>state := IN_QUOTED_FIELD\<rparr>"
  let ?rd' = "rd\<lparr>state := QUOTE_IN_QUOTED_FIELD, field_chars := f\<rparr>"
  have dl: "DQ \<noteq> LF" by (simp add: DQ_def LF_def)
  have "run_chars rd (write_field f @ k) = run_chars ?rd' k" for k
    using step_open_quote[OF assms(1)] run_quoted[of ?rd1 f k] assms(2) True dl
    by (simp add: write_field_def quote_field_def)
  then show ?thesis by (intro exI[of _ ?rd']) simp
next
  case False
  show ?thesis
  proof (cases f)
    case Nil
    with False assms show ?thesis by (intro exI[of _ rd]) (simp add: write_field_def)
  next
    case (Cons c f')
    with False have c: "c \<noteq> delimiter" "c \<noteq> DQ" "c \<noteq> LF" "c \<noteq> CR" and f': "\<not> needs_quotes f'"
      by (auto simp: needs_quotes_def)
    let ?rd1 = "rd\<lparr>state := IN_FIELD, field_chars := field_chars rd @ [c]\<rparr>"
    let ?rd' = "rd\<lparr>state := IN_FIELD, field_chars := f\<rparr>"
    have "run_chars rd (write_field f @ k) = run_chars ?rd' k" for k
      using step_start_plain[OF assms(1) c] run_plain[of ?rd1 f' k] f' assms(2) False c
      by (simp add: write_field_def Cons)
    then show ?thesis by (intro exI[of _ ?rd']) simp
  qed
qed

lemma run_field_delimiter:
  assumes "state rd = START_RECORD \<or> state rd = START_FIELD" and "field_chars rd = []"
  shows "run_chars rd (write_field f @ delimiter # k) =
    run_chars (rd\<lparr>state := START_FIELD, saved_fields := saved_fields rd @ [f],
                   field_chars := []\<rparr>) k"
proof -
  from run_field[OF assms, of f] obtain rd' where
    st: "state rd' = IN_FIELD \<or> state rd' = QUOTE_IN_QUOTED_FIELD \<or>
         (state rd' = state rd \<and> write_field f = [])"
    and fc: "field_chars rd' = f" and sf: "saved_fields rd' = saved_fields rd"
    and run: "\<And>k. run_chars rd (write_field f @ k) = run_chars rd' k"
    by blast
  have nq: "state rd' \<noteq> IN_QUOTED_FIELD" "state rd' \<noteq> EAT_CRNL" using st assms(1) by auto
  have dl: "delimiter \<noteq> LF" by (simp add: delimiter_def LF_def)
  from step_delimiter[OF nq] dl fc sf
  have "run_chars rd' (delimiter # k) =
      run_chars (rd'\<lparr>state := START_FIELD, saved_fields := saved_fields rd @ [f],
                     field_chars := []\<rparr>) k"
    by simp
  moreover have "rd'\<lparr>state := START_FIELD, saved_fields := saved_fields rd @ [f],
                     field_chars := []\<rparr> =
      rd\<lparr>state := START_FIELD, saved_fields := saved_fields rd @ [f], field_chars := []\<rparr>"
    by (cases rd, cases rd') simp
  ultimately show ?thesis by (simp add: run)
qed

lemma run_field_LF:
  assumes "state rd = START_FIELD \<or> (state rd = START_RECORD \<and> write_field f \<noteq> [])"
    and "field_chars rd = []"
  shows "run_chars rd (write_field f @ LF # k) =
    (case run_chars parse_reset k of (rows, e) \<Rightarrow> ((saved_fields rd @ [f]) # rows, e))"
proof -
  have start: "state rd = START_RECORD \<or> state rd = START_FIELD" using assms(1) by auto
  from run_field[OF start assms(2), of f] obtain rd' where
    st: "state rd' = IN_FIELD \<or> state rd' = QUOTE_IN_QUOTED_FIELD \<or>
         (state rd' = state rd \<and> write_field f = [])"
    and fc: "field_chars rd' = f" and sf: "saved_fields rd' = saved_fields rd"
    and run: "\<And>k. run_chars rd (write_field f @ k) = run_chars rd' k"
    by blast
  have "state rd' = START_FIELD \<or> state rd' = IN_FIELD \<or> state rd' = QUOTE_IN_QUOTED_FIELD"
    using st assms(1) by auto
  from step_LF_ends_record[OF this] fc sf
  have "run_chars rd' (LF # k) =
      (case run_chars parse_reset k of (rows, e) \<Rightarrow> ((saved_fields rd @ [f]) # rows, e))"
    by simp
  then show ?thesis by (simp add: run)
qed

lemma run_fields:
  assumes "fs \<noteq> []" and "state rd = START_FIELD" and "field_chars rd = []"
  shows "run_chars rd (join_fields (map write_field fs) @ LF # k) =
    (case run_chars parse_reset k of (rows, e) \<Rightarrow> ((saved_fields rd @ fs) # rows, e))"
  using assms
proof (induction fs arbitrary: rd rule: join_fields.induct)
  case 1
  then show ?case by simp
next
  case (2 f)
  then show ?case using run_field_LF[of rd f k] by simp
next
  case (3 f g fs)
  let ?rd = "rd\<lparr>state := START_FIELD, saved_fields := saved_fields rd @ [f], field_chars := []\<rparr>"
  have d: "run_chars rd (write_field f @ delimiter # (join_fields (map write_field (g # fs)) @ LF # k)) =
      run_chars ?rd (join_fields (map write_field (g # fs)) @ LF # k)"
    using run_field_delimiter[of rd f] "3.prems" by simp
  have "run_chars ?rd (join_fields (map write_field (g # fs)) @ LF # k) =
      (case run_chars parse_reset k of (rows, e) \<Rightarrow> ((saved_fields ?rd @ g # fs) # rows, e))"
    by (rule "3.IH") simp_all
  with d show ?case by simp
qed

lemma run_row:
  "run_chars parse_reset
     ((if row = [[]] then [DQ, DQ] else join_fields (map write_field row)) @ LF # k) =
   (case run_chars parse_reset k of (rows, e) \<Rightarrow> (row # rows, e))"
proof (cases row)
  case Nil
  have "state parse_reset = START_RECORD" by (simp add: parse_reset_def)
  from step_LF_blank[OF this] show ?thesis by (simp add: Nil parse_reset_def)
next
  case (Cons f fs)
  show ?thesis
  proof (cases fs)
    case Nil
    show ?thesis
    proof (cases "f = []")
      case True
      have dl: "DQ \<noteq> LF" by (simp add: DQ_def LF_def)
      let ?rd1 = "parse_reset\<lparr>state := IN_QUOTED_FIELD\<rparr>"
      let ?rd2 = "parse_reset\<lparr>state := QUOTE_IN_QUOTED_FIELD\<rparr>"
      have s1: "step parse_reset DQ = Inr ?rd1"
        by (rule step_open_quote) (simp add: parse_reset_def)
      have s2: "step ?rd1 DQ = Inr ?rd2" using step_quote_in_quoted[of ?rd1] by simp
      have s3: "step ?rd2 LF =
          Inr (?rd2\<lparr>state := START_RECORD, saved_fields := saved_fields ?rd2 @ [field_chars ?rd2],
                     field_chars := []\<rparr>)"
        by (rule step_LF_ends_record) simp
      from s1 s2 s3 dl show ?thesis
        by (simp add: Cons Nil True parse_reset_def)
    next
      case False
      then have "write_field f \<noteq> []"
        by (auto simp: write_field_def quote_field_def)
      with run_field_LF[of parse_reset f k] False show ?thesis
        by (simp add: Cons Nil parse_reset_def)
    qed
  next
    case (Cons g gs)
    let ?rd = "parse_reset\<lparr>state := START_FIELD, saved_fields := saved_fields parse_reset @ [f],
                 field_chars := []\<rparr>"
    have d: "run_chars parse_reset
        (write_field f @ delimiter # (join_fields (map write_field (g # gs)) @ LF # k)) =
      run_chars ?rd (join_fields (map write_field (g # gs)) @ LF # k)"
      by (rule run_field_delimiter) (simp_all add: parse_reset_def)
    have "run_chars ?rd (join_fields (map write_field (g # gs)) @ LF # k) =
      (case run_chars parse_reset k of (rows, e) \<Rightarrow> ((saved_fields ?rd @ g # gs) # rows, e))"
      by (rule run_fields) simp_all
    with d show ?thesis by (simp add: \<open>row = f # fs\<close> Cons parse_reset_def)
  qed
qed

lemma run_unix_rows: "run_chars parse_reset (unix_rows rows) = (rows, None)"
proof (induction rows)
  case Nil
  then show ?case by (simp add: unix_rows_def parse_reset_def)
next
  case (Cons row rows)
  have "unix_rows (row # rows) =
      (if row = [[]] then [DQ, DQ] else join_fields (map write_field row)) @ LF # unix_rows rows"
    by (simp add: unix_rows_def)
  with run_row[of row "unix_rows rows"] Cons show ?case by simp
qed

lemma unix_rows_last: "unix_rows rows = [] \<or> last (unix_rows rows) = LF"
  by (induction rows rule: rev_induct) (simp_all add: unix_rows_def)

lemma reader_inverts_writer:
  assumes "\<forall>row\<in>set rows. \<forall>f\<in>set row. CR \<notin> set f"
  shows "csv_reader (file_lines (writerows rows)) = (rows, None)"
  using csv_reader_run_chars[OF unix_rows_last, of rows]
  by (simp add: csv_reader_def file_lines_def un_writerows[OF assms] run_unix_rows)

subsection \<open>The round trip of a plan\<close>

text \<open>A plan with at least one row and no carriage return in its fields, exported and
  given as the input file, is read back as it was.\<close>

lemma rename_rows_of_written:
  "rename_rows_of (map (row_dict header) (map row_of rd)) = Inr (map cells_of rd)"
proof (induction rd)
  case Nil
  then show ?case by simp
next
  case (Cons r rd)
  obtain name ident new_ident where r: "r = (name, ident, new_ident)" by (cases r)
  have "rename_row_of (row_dict header (row_of r)) = Inr (cells_of r)"
    by (simp add: r rename_row_of_def row_dict_def header_def row_of_def cells_of_def)
  with Cons show ?case by simp
qed

lemma dict_reader_written:
  assumes "\<forall>r\<in>set rd. CR \<notin> set (fst r) \<and> CR \<notin> set (fst (snd r)) \<and> CR \<notin> set (snd (snd r))"
  shows "dict_reader (file_lines (writerows (header # map row_of rd))) =
    (map (row_dict header) (map row_of rd), None)"
proof -
  have "\<forall>row\<in>set (header # map row_of rd). \<forall>f\<in>set row. CR \<notin> set f"
    using assms by (auto simp: header_def row_of_def CR_def)
  from reader_inverts_writer[OF this]
  have "csv_reader (file_lines (writerows (header # map row_of rd))) =
      (header # map row_of rd, None)" .
  moreover have "filter (\<lambda>row. row \<noteq> []) (map row_of rd) = map row_of rd"
    by (induction rd) (auto simp: row_of_def)
  ultimately show ?thesis by (simp add: dict_reader_def)
qed

lemma round_trip_without_carriage_return:
  assumes "\<forall>r\<in>set rd. CR \<notin> set (fst r) \<and> CR \<notin> set (fst (snd r)) \<and> CR \<notin> set (snd (snd r))"
    and "rd \<noteq> []" and "filename \<noteq> []"
    and "files w filename = Some (writerows (header # map row_of rd))"
  shows "build_rename_data w entity_data search replace (Some filename) =
    ([FileRead filename], Inr (Some (map cells_of rd)))"
proof -
  have "rename_rows_of (map (row_dict header \<circ> row_of) rd) = Inr (map cells_of rd)"
    using rename_rows_of_written[of rd] by simp
  then have "read_rename_data w filename = ([FileRead filename], Inr (map cells_of rd))"
    by (simp add: read_rename_data_def assms(4) dict_reader_written[OF assms(1)] run_simps
        ret_def)
  with assms(2,3) show ?thesis
    by (simp add: build_rename_data_def truthy_def run_simps ret_def)
qed

text \<open>
  For one, a plan whose fields hold a comma, a quote character and a line feed goes
  through the export of one run and the input file of the next unchanged.
\<close>

lemma round_trip_example:
  "build_rename_data
     (sample_world\<lparr>files := files_after
        (fst (process_entities sample_world
                [(''x,'' @ [DQ] @ ''y'' @ [LF] @ ''z'', ''light.x''), ('''', ''switch.b'')]
                (Some ''i'') (Some '','') (Some ''out.csv'') None))
        (files sample_world)\<rparr>)
     [] None None (Some ''out.csv'') =
   ([FileRead ''out.csv''],
    Inr (Some [(Some (''x,'' @ [DQ] @ ''y'' @ [LF] @ ''z''), Some ''light.x'', Some ''l,ght.x''),
               (Some [], Some ''switch.b'', Some ''sw,tch.b'')]))"
  by code_simp

text \<open>
  Claim C7 fails on the code for a field with a carriage return. \<open>write_to_csv\<close> opens
  the file with \<open>newline=""\<close> and the writer quotes the field, so the file holds the
  carriage return; \<open>process_entities\<close> opens the file without \<open>newline=""\<close>, and the
  universal newlines of the text file turn the carriage return into a line feed before
  the reader sees it. The previewed plan with the row \<open>("a\rb", "light.x", "")\<close>,
  exported and read back, has the row \<open>("a\nb", "light.x", "")\<close>.
\<close>

theorem carriage_return_is_lost_in_the_round_trip:
  "fst (process_entities sample_world [(''a'' @ [CR] @ ''b'', ''light.x'')] (Some ''light'') None
          (Some ''out.csv'') None) =
     [Print (Table [header, [''a'' @ [CR] @ ''b'', ''light.x'', '''']]),
      FileWrite ''out.csv'' (writerows [header, [''a'' @ [CR] @ ''b'', ''light.x'', '''']]),
      Print (Text ''(Table written to out.csv)'')] \<and>
   build_rename_data
     (sample_world\<lparr>files := files_after
        (fst (process_entities sample_world [(''a'' @ [CR] @ ''b'', ''light.x'')] (Some ''light'') None
                (Some ''out.csv'') None))
        (files sample_world)\<rparr>)
     [] None None (Some ''out.csv'') =
   ([FileRead ''out.csv''], Inr (Some [(Some (''a'' @ [LF] @ ''b''), Some ''light.x'', Some [])]))"
  by code_simp

end
